theory Spec2Isabelle
  imports Main
begin

section \<open>Autocomplete suggestions of the documentation sidebar\<close>

text \<open>
  A shallow embedding of \<^verbatim>\<open>assets/js/autocomplete/suggestions.js\<close>. Each definition
  below is the translation of the JavaScript function of the same name; the built-in
  string, object and array operations the file calls come first.

  Strings are lists of characters. The model covers ASCII text: the only case folding
  is between \<open>a..z\<close> and \<open>A..Z\<close>, and white space is the ASCII white space.
\<close>

subsection \<open>Errors\<close>

text \<open>The only exception the file can raise is the \<open>TypeError\<close> of a property read on
  \<open>null\<close> or \<open>undefined\<close>.\<close>

datatype error = TypeError

subsection \<open>Strings: trim, split, case-insensitive search, replace\<close>

definition isWhiteSpace :: "char \<Rightarrow> bool" where
  "isWhiteSpace c = (c \<in> set [CHR 0x09, CHR 0x0A, CHR 0x0B, CHR 0x0C, CHR 0x0D, CHR '' ''])"

definition trim :: "string \<Rightarrow> string" where
  "trim s = rev (dropWhile isWhiteSpace (rev (dropWhile isWhiteSpace s)))"

text \<open>\<open>s.split(sep)\<close> for a one-character separator: never an empty array.\<close>

fun split :: "char \<Rightarrow> string \<Rightarrow> string list" where
  "split sep [] = [[]]"
| "split sep (c # cs) =
     (if c = sep then [] # split sep cs
      else (case split sep cs of [] \<Rightarrow> [[c]] | w # ws \<Rightarrow> (c # w) # ws))"

text \<open>The canonical form of a character under the \<open>i\<close> flag: its upper case.\<close>

definition canonicalize :: "char \<Rightarrow> char" where
  "canonicalize c =
     (case map_of (zip ''abcdefghijklmnopqrstuvwxyz'' ''ABCDEFGHIJKLMNOPQRSTUVWXYZ'') c of
        Some u \<Rightarrow> u | None \<Rightarrow> c)"

text \<open>
  A regular expression source that matches exactly one character sequence, and the
  regular expression built from it with the flag \<open>i\<close>.
\<close>

datatype Source = Literal string

datatype RegExp = RegExp_i Source

text \<open>
  Modelled from the spec: \<^verbatim>\<open>helpers.escapeText\<close> is imported from \<^verbatim>\<open>../helpers\<close>,
  which is not among the sources. The spec (4.1, step 1) says that it neutralises every
  regex metacharacter of the term, so that the term is matched literally: the source it
  returns matches exactly the characters of the term.
\<close>

definition escapeText :: "string \<Rightarrow> Source" where
  "escapeText text = Literal text"

text \<open>The result of \<open>s.match(re)\<close> for a regular expression without the \<open>g\<close> flag and
  without groups: the matched text, its position, and the string searched.\<close>

record Match =
  m0 :: string
  index :: nat
  input :: string

fun startsWithI :: "string \<Rightarrow> string \<Rightarrow> bool" where
  "startsWithI [] s = True"
| "startsWithI (p # ps) [] = False"
| "startsWithI (p # ps) (c # cs) = (canonicalize p = canonicalize c \<and> startsWithI ps cs)"

fun searchI :: "string \<Rightarrow> string \<Rightarrow> nat option" where
  "searchI p [] = (if p = [] then Some 0 else None)"
| "searchI p (c # cs) =
     (if startsWithI p (c # cs) then Some 0 else map_option Suc (searchI p cs))"

fun str_match :: "string \<Rightarrow> RegExp \<Rightarrow> Match option" where
  "str_match s (RegExp_i (Literal p)) =
     (case searchI p s of
        None \<Rightarrow> None
      | Some i \<Rightarrow> Some \<lparr>m0 = take (length p) (drop i s), index = i, input = s\<rparr>)"

text \<open>\<open>s.indexOf(needle)\<close>: the first exact occurrence.\<close>

fun startsWith :: "string \<Rightarrow> string \<Rightarrow> bool" where
  "startsWith [] s = True"
| "startsWith (p # ps) [] = False"
| "startsWith (p # ps) (c # cs) = (p = c \<and> startsWith ps cs)"

fun indexOf :: "string \<Rightarrow> string \<Rightarrow> nat option" where
  "indexOf p [] = (if p = [] then Some 0 else None)"
| "indexOf p (c # cs) =
     (if startsWith p (c # cs) then Some 0 else map_option Suc (indexOf p cs))"

text \<open>
  \<open>GetSubstitution\<close> of \<open>String.prototype.replace\<close> for a string pattern (no captures):
  in the replacement text \<open>$$\<close> stands for a dollar sign, \<open>$&\<close> for the matched text,
  \<open>$`\<close> for the text before the match and \<open>$'\<close> for the text after it; every other
  character, a lone dollar sign included, stands for itself.
\<close>

fun getSubstitution :: "string \<Rightarrow> string \<Rightarrow> string \<Rightarrow> string \<Rightarrow> string" where
  "getSubstitution matched pre post [] = []"
| "getSubstitution matched pre post [c] = [c]"
| "getSubstitution matched pre post (c # d # r) =
     (if c = CHR ''$'' \<and> d = CHR ''$'' then CHR ''$'' # getSubstitution matched pre post r
      else if c = CHR ''$'' \<and> d = CHR ''&'' then matched @ getSubstitution matched pre post r
      else if c = CHR ''$'' \<and> d = CHR 0x60 then pre @ getSubstitution matched pre post r
      else if c = CHR ''$'' \<and> d = CHR 0x27 then post @ getSubstitution matched pre post r
      else c # getSubstitution matched pre post (d # r))"

text \<open>\<open>s.replace(searchString, replaceValue)\<close> with two strings: only the first
  occurrence is replaced.\<close>

definition str_replace :: "string \<Rightarrow> string \<Rightarrow> string \<Rightarrow> string" where
  "str_replace s searchString replaceValue =
     (case indexOf searchString s of
        None \<Rightarrow> s
      | Some pos \<Rightarrow>
          (let pre = take pos s; post = drop (pos + length searchString) s
           in pre @ getSubstitution searchString pre post replaceValue @ post))"

subsection \<open>Objects used as dictionaries, and sorting\<close>

text \<open>
  An object is the list of its own properties in insertion order. A property read also
  finds what every object inherits from \<open>Object.prototype\<close>; all of those are truthy.
\<close>

type_synonym 'v object = "(string \<times> 'v) list"

definition objectPrototypeKeys :: "string list" where
  "objectPrototypeKeys =
     [''constructor'', ''hasOwnProperty'', ''isPrototypeOf'', ''propertyIsEnumerable'',
      ''toLocaleString'', ''toString'', ''valueOf'', ''__proto__'', ''__defineGetter__'',
      ''__defineSetter__'', ''__lookupGetter__'', ''__lookupSetter__'']"

text \<open>\<open>if (acc[key])\<close> for an object whose own properties hold objects.\<close>

definition truthyAt :: "'v object \<Rightarrow> string \<Rightarrow> bool" where
  "truthyAt acc key = (map_of acc key \<noteq> None \<or> key \<in> set objectPrototypeKeys)"

text \<open>
  \<open>Object.values\<close> lists the properties whose names are array indices first, in
  ascending numeric order, then the others in insertion order. An array index is the
  canonical decimal form of a number below \<open>2^32 - 1\<close>.
\<close>

fun decimal :: "nat \<Rightarrow> string \<Rightarrow> nat option" where
  "decimal n [] = Some n"
| "decimal n (c # cs) =
     (case map_of (zip ''0123456789'' [0, 1, 2, 3, 4, 5, 6, 7, 8, 9]) c of
        None \<Rightarrow> None
      | Some d \<Rightarrow> decimal (10 * n + d) cs)"

definition arrayIndex :: "string \<Rightarrow> nat option" where
  "arrayIndex s =
     (if s = [] \<or> (hd s = CHR ''0'' \<and> tl s \<noteq> []) then None
      else (case decimal 0 s of
              None \<Rightarrow> None
            | Some n \<Rightarrow> if n < 4294967295 then Some n else None))"

definition objectValues :: "'v object \<Rightarrow> 'v list" where
  "objectValues obj =
     map snd (sort_key (\<lambda>kv. the (arrayIndex (fst kv))) (filter (\<lambda>kv. arrayIndex (fst kv) \<noteq> None) obj))
     @ map snd (filter (\<lambda>kv. arrayIndex (fst kv) = None) obj)"

text \<open>
  \<open>Array.prototype.sort\<close> with a comparison function is stable: an element stays in
  front of a later one unless the comparison of the two, in that order, is positive.
\<close>

fun sortInsert :: "('a \<Rightarrow> 'a \<Rightarrow> int) \<Rightarrow> 'a \<Rightarrow> 'a list \<Rightarrow> 'a list" where
  "sortInsert cmp x [] = [x]"
| "sortInsert cmp x (y # ys) =
     (if cmp x y \<le> 0 then x # y # ys else y # sortInsert cmp x ys)"

definition array_sort :: "('a \<Rightarrow> 'a \<Rightarrow> int) \<Rightarrow> 'a list \<Rightarrow> 'a list" where
  "array_sort cmp xs = foldr (sortInsert cmp) xs []"

subsection \<open>The index and the results\<close>

text \<open>
  The global \<^verbatim>\<open>sidebarNodes\<close>: three lists of entries. An entry has an \<open>id\<close>, an
  optional \<open>title\<close> and node groups (an absent \<^verbatim>\<open>nodeGroups\<close> is the empty list: the
  loop over it does nothing); a node group is a key and the children it lists. Of a
  child the file reads \<open>id\<close>, \<open>anchor\<close> and \<open>label\<close>. The fields are named \<open>cid\<close>,
  \<open>eid\<close> and \<open>rid\<close> here because \<open>id\<close> is the identity function of HOL.
\<close>

record ChildEntry =
  cid :: string
  anchor :: "string option"
  label :: "string option"

record Entry =
  eid :: string
  title :: "string option"
  nodeGroups :: "(string \<times> ChildEntry list) list"

record Index =
  modules :: "Entry list"
  exceptions :: "Entry list"
  tasks :: "Entry list"

text \<open>A child of a result: the copy of the child entry, with its \<open>match\<close>.\<close>

record ChildResult = ChildEntry +
  cmatch :: string

text \<open>
  The object \<^verbatim>\<open>result\<close> of \<^verbatim>\<open>findIn\<close> while the node groups are searched: the groups
  are objects keyed by child id, absent until a group is stored.
\<close>

record Result =
  r_id :: string
  r_match :: "string option"
  r_functions :: "ChildResult object option"
  r_callbacks :: "ChildResult object option"
  r_types :: "ChildResult object option"

text \<open>What \<^verbatim>\<open>findIn\<close> returns for an entry: the groups are now sorted arrays.\<close>

record MatchResult =
  rid :: string
  rmatch :: "string option"
  m_functions :: "ChildResult list option"
  m_callbacks :: "ChildResult list option"
  m_types :: "ChildResult list option"

datatype Category = Module | Child | Exception | MixTask

record TaggedResult = MatchResult +
  category :: Category

text \<open>The objects \<^verbatim>\<open>isMatch\<close> and \<^verbatim>\<open>serialize\<close> are given: a child of a result,
  or the result of an entry.\<close>

datatype Item = ChildItem ChildResult | EntryItem TaggedResult

text \<open>A suggestion. \<open>title\<close> is the \<open>match\<close> of the item, absent when the item has
  none; \<open>category\<close> is absent when the item has none.\<close>

record SuggestionItem =
  link :: string
  s_title :: "string option"
  description :: "string option"
  s_label :: "string option"
  s_category :: "Category option"

subsection \<open>Constants\<close>

definition resultsCount :: nat where
  "resultsCount = 5"

fun sortingPriority :: "Category \<Rightarrow> int" where
  "sortingPriority Module = 3"
| "sortingPriority Child = 2"
| "sortingPriority Exception = 1"
| "sortingPriority MixTask = 0"

subsection \<open>The functions of the file\<close>

fun item_id :: "Item \<Rightarrow> string" where
  "item_id (ChildItem c) = cid c"
| "item_id (EntryItem e) = rid e"

fun item_match :: "Item \<Rightarrow> string option" where
  "item_match (ChildItem c) = Some (cmatch c)"
| "item_match (EntryItem e) = rmatch e"

fun item_anchor :: "Item \<Rightarrow> string option" where
  "item_anchor (ChildItem c) = anchor c"
| "item_anchor (EntryItem e) = None"

fun item_label :: "Item \<Rightarrow> string option" where
  "item_label (ChildItem c) = label c"
| "item_label (EntryItem e) = None"

fun item_category :: "Item \<Rightarrow> Category option" where
  "item_category (ChildItem c) = None"
| "item_category (EntryItem e) = Some (category e)"

definition isMatch :: "Item \<Rightarrow> bool" where
  "isMatch item = (item_match item \<noteq> Some (item_id item))"

text \<open>A string is truthy when it is present and not empty.\<close>

fun truthy :: "string option \<Rightarrow> bool" where
  "truthy None = False"
| "truthy (Some s) = (s \<noteq> [])"

definition serialize :: "Item \<Rightarrow> string \<Rightarrow> bool \<Rightarrow> SuggestionItem" where
  "serialize item moduleId isChild =
     (let anchor = (if isChild then item_anchor item else Some []);
          category = (if isChild then Some Child else item_category item);
          description = (if isChild then Some moduleId else None);
          label = (if truthy (item_label item) then item_label item else None);
          link = (if truthy anchor then moduleId @ ''.html#'' @ the anchor
                  else moduleId @ ''.html'')
      in \<lparr>link = link, s_title = item_match item, description = description,
          s_label = label, s_category = category\<rparr>)"

definition addLabel :: "ChildResult list \<Rightarrow> string \<Rightarrow> ChildResult list" where
  "addLabel items labelName = map (\<lambda>item. item\<lparr>label := Some labelName\<rparr>) items"

definition addCategory :: "MatchResult list \<Rightarrow> Category \<Rightarrow> TaggedResult list" where
  "addCategory ms categoryName =
     map (\<lambda>m. MatchResult.extend m (TaggedResult.fields categoryName)) ms"

definition parseModuleResults :: "TaggedResult \<Rightarrow> SuggestionItem list" where
  "parseModuleResults moduleResults =
     (let functions = (case m_functions moduleResults of None \<Rightarrow> [] | Some xs \<Rightarrow> xs);
          callbacks = (case m_callbacks moduleResults of None \<Rightarrow> [] | Some xs \<Rightarrow> xs);
          types = (case m_types moduleResults of None \<Rightarrow> [] | Some xs \<Rightarrow> xs);
          types = addLabel types ''type'';
          callbacks = addLabel callbacks ''callback'';
          results = map (\<lambda>item. serialize item (rid moduleResults) True)
                      (filter isMatch (map ChildItem (functions @ callbacks @ types)))
      in if isMatch (EntryItem moduleResults)
         then serialize (EntryItem moduleResults) (rid moduleResults) False # results
         else results)"

text \<open>\<^verbatim>\<open>highlight\<close> passes the match array as the pattern of \<open>replace\<close>; as a string
  an array of one element is that element, the matched text.\<close>

definition highlight :: "Match \<Rightarrow> string" where
  "highlight match = str_replace (input match) (m0 match) (''<em>'' @ m0 match @ ''</em>'')"

text \<open>
  \<^verbatim>\<open>findNested\<close>: the reduction over the children of one node group. The callback
  assigns to \<^verbatim>\<open>term\<close>, so the term is threaded through the loop with the accumulator.
  \<^verbatim>\<open>parentId\<close> is the string the template literal makes of the parent's title.
  \<^verbatim>\<open>highlight\<close> of \<open>null\<close> or of the empty string raises a \<open>TypeError\<close>.
  The copy \<^verbatim>\<open>result\<close> has no \<open>match\<close> until one of the three branches assigns
  it; the record is built with the id in that field, and every branch overwrites it.
  An absent list of children is the empty list.
\<close>

fun findNested_reduce ::
  "string \<Rightarrow> RegExp \<Rightarrow> string \<Rightarrow> ChildResult object \<Rightarrow> ChildEntry list
     \<Rightarrow> error + ChildResult object" where
  "findNested_reduce parentId matcher term acc [] = Inr acc"
| "findNested_reduce parentId matcher term acc (element # elements) =
     (if truthyAt acc (cid element) then findNested_reduce parentId matcher term acc elements
      else
        (let fullTitle = parentId @ ''.'' @ cid element;
             fullTitleMatch = (str_match (parentId @ ''.'') matcher = None
                               \<and> str_match fullTitle matcher \<noteq> None);
             match = (if cid element = [] then None else str_match (cid element) matcher);
             result = ChildEntry.extend element (ChildResult.fields (cid element))
         in case match of
              Some m \<Rightarrow>
                findNested_reduce parentId matcher term
                  (acc @ [(cid element, result\<lparr>cmatch := highlight m\<rparr>)]) elements
            | None \<Rightarrow>
                if fullTitleMatch then
                  (let term' = last (split (CHR ''.'') term);
                       matcherWithoutParent = RegExp_i (escapeText term');
                       matchWithoutParent =
                         (if cid element = [] then None
                          else str_match (cid element) matcherWithoutParent)
                   in case matchWithoutParent of
                        None \<Rightarrow> Inl TypeError
                      | Some m \<Rightarrow>
                          findNested_reduce parentId matcher term'
                            (acc @ [(cid element, result\<lparr>cmatch := highlight m\<rparr>)]) elements)
                else
                  findNested_reduce parentId matcher term
                    (acc @ [(cid element, result\<lparr>cmatch := cid element\<rparr>)]) elements))"

definition findNested ::
  "ChildEntry list \<Rightarrow> string \<Rightarrow> RegExp \<Rightarrow> string \<Rightarrow> ChildResult object option
     \<Rightarrow> error + ChildResult object" where
  "findNested elements parentId matcher term acc =
     findNested_reduce parentId matcher term (case acc of None \<Rightarrow> [] | Some a \<Rightarrow> a) elements"

text \<open>
  \<^verbatim>\<open>result[key]\<close> for the key of a node group. A key names a kind of children
  (functions, callbacks, types, or a group of the project's own); the keys \<open>id\<close> and
  \<open>match\<close> and the names of inherited properties are not keys of node groups.
\<close>

definition getGroup :: "Result \<Rightarrow> string \<Rightarrow> ChildResult object option" where
  "getGroup result key =
     (if key = ''types'' then r_types result
      else if key = ''callbacks'' then r_callbacks result
      else if key = ''functions'' then r_functions result
      else None)"

text \<open>The loop of \<^verbatim>\<open>findIn\<close> over the node groups of one entry, on \<^verbatim>\<open>result\<close> and
  \<^verbatim>\<open>hasMatch\<close>; \<open>parentId\<close> is the title of the entry, as \<^verbatim>\<open>findNested\<close> receives it.\<close>

fun findIn_groups ::
  "string \<Rightarrow> RegExp \<Rightarrow> string \<Rightarrow> Result \<times> bool \<Rightarrow> (string \<times> ChildEntry list) list
     \<Rightarrow> error + Result \<times> bool" where
  "findIn_groups parentId matcher term st [] = Inr st"
| "findIn_groups parentId matcher term (result, hasMatch) ((key, nodes) # groups) =
     (case findNested nodes parentId matcher term (getGroup result key) of
        Inl e \<Rightarrow> Inl e
      | Inr matches \<Rightarrow>
          if length matches > 0 then
            (if key = ''types'' then
               findIn_groups parentId matcher term (result\<lparr>r_types := Some matches\<rparr>, True) groups
             else if key = ''callbacks'' then
               findIn_groups parentId matcher term (result\<lparr>r_callbacks := Some matches\<rparr>, True) groups
             else
               findIn_groups parentId matcher term (result\<lparr>r_functions := Some matches\<rparr>, True) groups)
          else findIn_groups parentId matcher term (result, hasMatch) groups)"

text \<open>\<open>Object.values(obj).sort((a, b) => a.id.localeCompare(b.id))\<close>. The comparison
  of the locale is a parameter, \<open>lc\<close>.\<close>

definition sortedValues :: "(string \<Rightarrow> string \<Rightarrow> int) \<Rightarrow> ChildResult object \<Rightarrow> ChildResult list" where
  "sortedValues lc obj = array_sort (\<lambda>a b. lc (cid a) (cid b)) (objectValues obj)"

text \<open>The body of the \<open>map\<close> of \<^verbatim>\<open>findIn\<close>: \<open>None\<close> is the \<open>undefined\<close> the later
  \<open>filter\<close> removes.\<close>

definition findIn_element ::
  "(string \<Rightarrow> string \<Rightarrow> int) \<Rightarrow> RegExp \<Rightarrow> string \<Rightarrow> Entry \<Rightarrow> error + MatchResult option" where
  "findIn_element lc matcher term element =
     (let titleMatch = (if truthy (title element) then str_match (the (title element)) matcher
                        else None);
          result = \<lparr>r_id = eid element,
                    r_match = (case titleMatch of Some m \<Rightarrow> Some (highlight m)
                               | None \<Rightarrow> title element),
                    r_functions = None, r_callbacks = None, r_types = None\<rparr>;
          hasMatch = (titleMatch \<noteq> None);
          parentId = (case title element of None \<Rightarrow> ''undefined'' | Some t \<Rightarrow> t)
      in case findIn_groups parentId matcher term (result, hasMatch) (nodeGroups element) of
           Inl e \<Rightarrow> Inl e
         | Inr (result, hasMatch) \<Rightarrow>
             if hasMatch then
               Inr (Some \<lparr>rid = r_id result, rmatch = r_match result,
                          m_functions = map_option (sortedValues lc) (r_functions result),
                          m_callbacks = map_option (sortedValues lc) (r_callbacks result),
                          m_types = map_option (sortedValues lc) (r_types result)\<rparr>)
             else Inr None)"

fun findIn_map ::
  "(string \<Rightarrow> string \<Rightarrow> int) \<Rightarrow> RegExp \<Rightarrow> string \<Rightarrow> Entry list \<Rightarrow> error + MatchResult list" where
  "findIn_map lc matcher term [] = Inr []"
| "findIn_map lc matcher term (element # elements) =
     (case findIn_element lc matcher term element of
        Inl e \<Rightarrow> Inl e
      | Inr r \<Rightarrow>
          (case findIn_map lc matcher term elements of
             Inl e \<Rightarrow> Inl e
           | Inr rs \<Rightarrow> Inr (case r of None \<Rightarrow> rs | Some m \<Rightarrow> m # rs)))"

definition findIn ::
  "(string \<Rightarrow> string \<Rightarrow> int) \<Rightarrow> Entry list \<Rightarrow> string \<Rightarrow> error + MatchResult list" where
  "findIn lc elements term = findIn_map lc (RegExp_i (escapeText term)) term elements"

text \<open>\<open>sortingPriority[category] || -1\<close>: an absent category and the priority 0 both
  give \<open>-1\<close>.\<close>

definition weight :: "Category option \<Rightarrow> int" where
  "weight c =
     (case c of
        None \<Rightarrow> -1
      | Some k \<Rightarrow> if sortingPriority k = 0 then -1 else sortingPriority k)"

definition compareItems :: "SuggestionItem \<Rightarrow> SuggestionItem \<Rightarrow> int" where
  "compareItems item1 item2 = weight (s_category item2) - weight (s_category item1)"

text \<open>The suggestions before they are sorted and cut.\<close>

definition flatResults ::
  "(string \<Rightarrow> string \<Rightarrow> int) \<Rightarrow> Index \<Rightarrow> string \<Rightarrow> error + SuggestionItem list" where
  "flatResults lc nodes term =
     (case findIn lc (modules nodes) term of
        Inl e \<Rightarrow> Inl e
      | Inr modules' \<Rightarrow>
          (case findIn lc (exceptions nodes) term of
             Inl e \<Rightarrow> Inl e
           | Inr exceptions' \<Rightarrow>
               (case findIn lc (tasks nodes) term of
                  Inl e \<Rightarrow> Inl e
                | Inr tasks' \<Rightarrow>
                    (let results = addCategory modules' Module @ addCategory exceptions' Exception
                                   @ addCategory tasks' MixTask
                     in Inr (foldl (\<lambda>acc moduleResults. acc @ parseModuleResults moduleResults)
                               [] results)))))"

definition getSuggestions ::
  "(string \<Rightarrow> string \<Rightarrow> int) \<Rightarrow> Index \<Rightarrow> string \<Rightarrow> error + SuggestionItem list" where
  "getSuggestions lc nodes term =
     (if length (trim term) = 0 then Inr []
      else (case flatResults lc nodes term of
              Inl e \<Rightarrow> Inl e
            | Inr results \<Rightarrow> Inr (take resultsCount (array_sort compareItems results))))"

subsection \<open>Example indexes\<close>

text \<open>A module \<open>Foo\<close> with one function \<open>bar\<close>.\<close>

definition fooIndex :: Index where
  "fooIndex =
     \<lparr>modules = [\<lparr>eid = ''Foo'', title = Some ''Foo'',
                   nodeGroups = [(''functions'',
                     [\<lparr>cid = ''bar'', anchor = Some ''bar/0'', label = None\<rparr>])]\<rparr>],
      exceptions = [], tasks = []\<rparr>"

text \<open>One entry of each kind; the task has a function.\<close>

definition mixedIndex :: Index where
  "mixedIndex =
     \<lparr>modules = [\<lparr>eid = ''Foo'', title = Some ''Foo'', nodeGroups = []\<rparr>],
      exceptions = [\<lparr>eid = ''FooError'', title = Some ''FooError'', nodeGroups = []\<rparr>],
      tasks = [\<lparr>eid = ''Mix.Tasks.Foo'', title = Some ''mix foo'',
                 nodeGroups = [(''functions'',
                   [\<lparr>cid = ''foo/1'', anchor = Some ''foo/1'', label = None\<rparr>])]\<rparr>]\<rparr>"

text \<open>A task as the documentation generator lists it: the title is the command, the
  id is the module.\<close>

definition taskIndex :: Index where
  "taskIndex =
     \<lparr>modules = [], exceptions = [],
      tasks = [\<lparr>eid = ''Mix.Tasks.Docs'', title = Some ''mix docs'',
                 nodeGroups = [(''functions'',
                   [\<lparr>cid = ''run/1'', anchor = Some ''run/1'', label = None\<rparr>])]\<rparr>]\<rparr>"

text \<open>The locale's comparison is a parameter of the model; the examples that need one
  use the comparison of the character codes.\<close>

fun compareCodes :: "string \<Rightarrow> string \<Rightarrow> int" where
  "compareCodes [] [] = 0"
| "compareCodes [] (b # bs) = -1"
| "compareCodes (a # as) [] = 1"
| "compareCodes (a # as) (b # bs) =
     (if (of_char a :: nat) < of_char b then -1
      else if (of_char b :: nat) < of_char a then 1
      else compareCodes as bs)"

section \<open>The same functions on a store of objects\<close>

text \<open>
  The definitions above treat the children of the index as values. In the file they
  are objects, and two of its functions assign to properties of objects they are given:
  \<^verbatim>\<open>findNested\<close> sets \<open>match\<close> on the copy it makes of a child, and \<^verbatim>\<open>addLabel\<close> sets
  \<open>label\<close> on the children of a result. Whether the index is left as it was depends on
  which objects those are, so this section models the child objects in a store: a list
  of cells, an object being the position of its cell. The entries hold the positions of
  their children, and so do the results.

  A result of an entry is the object literal \<^verbatim>\<open>result\<close> of \<^verbatim>\<open>findIn\<close>, built from the
  strings \<open>id\<close> and \<open>title\<close> of the entry; no function of the file assigns to an entry.
  Results of entries stay values here.
\<close>

record Cell =
  o_id :: string
  o_anchor :: "string option"
  o_label :: "string option"
  o_match :: "string option"

type_synonym store = "Cell list"

record EntryS =
  eidS :: string
  titleS :: "string option"
  nodeGroupsS :: "(string \<times> nat list) list"

record IndexS =
  modulesS :: "EntryS list"
  exceptionsS :: "EntryS list"
  tasksS :: "EntryS list"

text \<open>Reading through a position that holds no object is the read of a property of
  \<open>undefined\<close>.\<close>

definition deref :: "store \<Rightarrow> nat \<Rightarrow> error + Cell" where
  "deref h r = (if r < length h then Inr (h ! r) else Inl TypeError)"

text \<open>\<open>JSON.parse(JSON.stringify(element))\<close>: a new object with the properties of the
  old one.\<close>

definition jsonCopy :: "store \<Rightarrow> Cell \<Rightarrow> nat \<times> store" where
  "jsonCopy h element = (length h, h @ [element])"

definition setMatch :: "store \<Rightarrow> nat \<Rightarrow> string \<Rightarrow> store" where
  "setMatch h r m = h[r := (h ! r)\<lparr>o_match := Some m\<rparr>]"

definition setLabel :: "store \<Rightarrow> nat \<Rightarrow> string \<Rightarrow> store" where
  "setLabel h r l = h[r := (h ! r)\<lparr>o_label := Some l\<rparr>]"

fun findNestedS_reduce ::
  "string \<Rightarrow> RegExp \<Rightarrow> string \<Rightarrow> nat object \<Rightarrow> store \<Rightarrow> nat list
     \<Rightarrow> error + nat object \<times> store" where
  "findNestedS_reduce parentId matcher term acc h [] = Inr (acc, h)"
| "findNestedS_reduce parentId matcher term acc h (r # elements) =
     (case deref h r of
        Inl e \<Rightarrow> Inl e
      | Inr element \<Rightarrow>
          if truthyAt acc (o_id element)
          then findNestedS_reduce parentId matcher term acc h elements
          else
            (let fullTitle = parentId @ ''.'' @ o_id element;
                 fullTitleMatch = (str_match (parentId @ ''.'') matcher = None
                                   \<and> str_match fullTitle matcher \<noteq> None);
                 match = (if o_id element = [] then None else str_match (o_id element) matcher);
                 (result, h1) = jsonCopy h element
             in case match of
                  Some m \<Rightarrow>
                    findNestedS_reduce parentId matcher term
                      (acc @ [(o_id element, result)]) (setMatch h1 result (highlight m)) elements
                | None \<Rightarrow>
                    if fullTitleMatch then
                      (let term' = last (split (CHR ''.'') term);
                           matcherWithoutParent = RegExp_i (escapeText term');
                           matchWithoutParent =
                             (if o_id element = [] then None
                              else str_match (o_id element) matcherWithoutParent)
                       in case matchWithoutParent of
                            None \<Rightarrow> Inl TypeError
                          | Some m \<Rightarrow>
                              findNestedS_reduce parentId matcher term'
                                (acc @ [(o_id element, result)])
                                (setMatch h1 result (highlight m)) elements)
                    else
                      findNestedS_reduce parentId matcher term
                        (acc @ [(o_id element, result)])
                        (setMatch h1 result (o_id element)) elements))"

definition findNestedS ::
  "nat list \<Rightarrow> string \<Rightarrow> RegExp \<Rightarrow> string \<Rightarrow> nat object option \<Rightarrow> store
     \<Rightarrow> error + nat object \<times> store" where
  "findNestedS elements parentId matcher term acc h =
     findNestedS_reduce parentId matcher term (case acc of None \<Rightarrow> [] | Some a \<Rightarrow> a) h elements"

record ResultS =
  rs_id :: string
  rs_match :: "string option"
  rs_functions :: "nat object option"
  rs_callbacks :: "nat object option"
  rs_types :: "nat object option"

record MatchResultS =
  ridS :: string
  rmatchS :: "string option"
  ms_functions :: "nat list option"
  ms_callbacks :: "nat list option"
  ms_types :: "nat list option"

record TaggedResultS = MatchResultS +
  categoryS :: Category

definition getGroupS :: "ResultS \<Rightarrow> string \<Rightarrow> nat object option" where
  "getGroupS result key =
     (if key = ''types'' then rs_types result
      else if key = ''callbacks'' then rs_callbacks result
      else if key = ''functions'' then rs_functions result
      else None)"

fun findInS_groups ::
  "string \<Rightarrow> RegExp \<Rightarrow> string \<Rightarrow> ResultS \<times> bool \<Rightarrow> store \<Rightarrow> (string \<times> nat list) list
     \<Rightarrow> error + (ResultS \<times> bool) \<times> store" where
  "findInS_groups parentId matcher term st h [] = Inr (st, h)"
| "findInS_groups parentId matcher term (result, hasMatch) h ((key, nodes) # groups) =
     (case findNestedS nodes parentId matcher term (getGroupS result key) h of
        Inl e \<Rightarrow> Inl e
      | Inr (matches, h') \<Rightarrow>
          if length matches > 0 then
            (if key = ''types'' then
               findInS_groups parentId matcher term (result\<lparr>rs_types := Some matches\<rparr>, True) h' groups
             else if key = ''callbacks'' then
               findInS_groups parentId matcher term (result\<lparr>rs_callbacks := Some matches\<rparr>, True) h' groups
             else
               findInS_groups parentId matcher term (result\<lparr>rs_functions := Some matches\<rparr>, True) h' groups)
          else findInS_groups parentId matcher term (result, hasMatch) h' groups)"

definition sortedValuesS :: "(string \<Rightarrow> string \<Rightarrow> int) \<Rightarrow> store \<Rightarrow> nat object \<Rightarrow> nat list" where
  "sortedValuesS lc h obj =
     array_sort (\<lambda>a b. lc (o_id (h ! a)) (o_id (h ! b))) (objectValues obj)"

definition findInS_element ::
  "(string \<Rightarrow> string \<Rightarrow> int) \<Rightarrow> RegExp \<Rightarrow> string \<Rightarrow> store \<Rightarrow> EntryS
     \<Rightarrow> error + MatchResultS option \<times> store" where
  "findInS_element lc matcher term h element =
     (let titleMatch = (if truthy (titleS element) then str_match (the (titleS element)) matcher
                        else None);
          result = \<lparr>rs_id = eidS element,
                    rs_match = (case titleMatch of Some m \<Rightarrow> Some (highlight m)
                                | None \<Rightarrow> titleS element),
                    rs_functions = None, rs_callbacks = None, rs_types = None\<rparr>;
          hasMatch = (titleMatch \<noteq> None);
          parentId = (case titleS element of None \<Rightarrow> ''undefined'' | Some t \<Rightarrow> t)
      in case findInS_groups parentId matcher term (result, hasMatch) h (nodeGroupsS element) of
           Inl e \<Rightarrow> Inl e
         | Inr ((result, hasMatch), h') \<Rightarrow>
             if hasMatch then
               Inr (Some \<lparr>ridS = rs_id result, rmatchS = rs_match result,
                          ms_functions = map_option (sortedValuesS lc h') (rs_functions result),
                          ms_callbacks = map_option (sortedValuesS lc h') (rs_callbacks result),
                          ms_types = map_option (sortedValuesS lc h') (rs_types result)\<rparr>, h')
             else Inr (None, h'))"

fun findInS_map ::
  "(string \<Rightarrow> string \<Rightarrow> int) \<Rightarrow> RegExp \<Rightarrow> string \<Rightarrow> store \<Rightarrow> EntryS list
     \<Rightarrow> error + MatchResultS list \<times> store" where
  "findInS_map lc matcher term h [] = Inr ([], h)"
| "findInS_map lc matcher term h (element # elements) =
     (case findInS_element lc matcher term h element of
        Inl e \<Rightarrow> Inl e
      | Inr (r, h') \<Rightarrow>
          (case findInS_map lc matcher term h' elements of
             Inl e \<Rightarrow> Inl e
           | Inr (rs, h'') \<Rightarrow> Inr (case r of None \<Rightarrow> rs | Some m \<Rightarrow> m # rs, h'')))"

definition findInS ::
  "(string \<Rightarrow> string \<Rightarrow> int) \<Rightarrow> EntryS list \<Rightarrow> string \<Rightarrow> store
     \<Rightarrow> error + MatchResultS list \<times> store" where
  "findInS lc elements term h = findInS_map lc (RegExp_i (escapeText term)) term h elements"

text \<open>\<^verbatim>\<open>addLabel\<close> assigns to each item it is given, and returns the items.\<close>

definition addLabelS :: "store \<Rightarrow> nat list \<Rightarrow> string \<Rightarrow> store" where
  "addLabelS h items labelName = foldl (\<lambda>h item. setLabel h item labelName) h items"

definition addCategoryS :: "MatchResultS list \<Rightarrow> Category \<Rightarrow> TaggedResultS list" where
  "addCategoryS ms categoryName =
     map (\<lambda>m. MatchResultS.extend m (TaggedResultS.fields categoryName)) ms"

text \<open>An item is read when \<^verbatim>\<open>isMatch\<close> or \<^verbatim>\<open>serialize\<close> is called: a child is the cell
  the store holds for it then.\<close>

datatype ItemS = ChildItemS Cell | EntryItemS TaggedResultS

fun itemS_id :: "ItemS \<Rightarrow> string" where
  "itemS_id (ChildItemS c) = o_id c"
| "itemS_id (EntryItemS e) = ridS e"

fun itemS_match :: "ItemS \<Rightarrow> string option" where
  "itemS_match (ChildItemS c) = o_match c"
| "itemS_match (EntryItemS e) = rmatchS e"

fun itemS_anchor :: "ItemS \<Rightarrow> string option" where
  "itemS_anchor (ChildItemS c) = o_anchor c"
| "itemS_anchor (EntryItemS e) = None"

fun itemS_label :: "ItemS \<Rightarrow> string option" where
  "itemS_label (ChildItemS c) = o_label c"
| "itemS_label (EntryItemS e) = None"

fun itemS_category :: "ItemS \<Rightarrow> Category option" where
  "itemS_category (ChildItemS c) = None"
| "itemS_category (EntryItemS e) = Some (categoryS e)"

definition isMatchS :: "ItemS \<Rightarrow> bool" where
  "isMatchS item = (itemS_match item \<noteq> Some (itemS_id item))"

definition serializeS :: "ItemS \<Rightarrow> string \<Rightarrow> bool \<Rightarrow> SuggestionItem" where
  "serializeS item moduleId isChild =
     (let anchor = (if isChild then itemS_anchor item else Some []);
          category = (if isChild then Some Child else itemS_category item);
          description = (if isChild then Some moduleId else None);
          label = (if truthy (itemS_label item) then itemS_label item else None);
          link = (if truthy anchor then moduleId @ ''.html#'' @ the anchor
                  else moduleId @ ''.html'')
      in \<lparr>link = link, s_title = itemS_match item, description = description,
          s_label = label, s_category = category\<rparr>)"

definition parseModuleResultsS :: "store \<Rightarrow> TaggedResultS \<Rightarrow> SuggestionItem list \<times> store" where
  "parseModuleResultsS h moduleResults =
     (let functions = (case ms_functions moduleResults of None \<Rightarrow> [] | Some xs \<Rightarrow> xs);
          callbacks = (case ms_callbacks moduleResults of None \<Rightarrow> [] | Some xs \<Rightarrow> xs);
          types = (case ms_types moduleResults of None \<Rightarrow> [] | Some xs \<Rightarrow> xs);
          h1 = addLabelS h types ''type'';
          h2 = addLabelS h1 callbacks ''callback'';
          results = map (\<lambda>item. serializeS item (ridS moduleResults) True)
                      (filter isMatchS (map (\<lambda>r. ChildItemS (h2 ! r)) (functions @ callbacks @ types)))
      in if isMatchS (EntryItemS moduleResults)
         then (serializeS (EntryItemS moduleResults) (ridS moduleResults) False # results, h2)
         else (results, h2))"

fun parseAllS :: "SuggestionItem list \<Rightarrow> store \<Rightarrow> TaggedResultS list \<Rightarrow> SuggestionItem list \<times> store" where
  "parseAllS acc h [] = (acc, h)"
| "parseAllS acc h (moduleResults # results) =
     (case parseModuleResultsS h moduleResults of
        (items, h') \<Rightarrow> parseAllS (acc @ items) h' results)"

definition flatResultsS ::
  "(string \<Rightarrow> string \<Rightarrow> int) \<Rightarrow> IndexS \<Rightarrow> string \<Rightarrow> store
     \<Rightarrow> error + SuggestionItem list \<times> store" where
  "flatResultsS lc nodes term h =
     (case findInS lc (modulesS nodes) term h of
        Inl e \<Rightarrow> Inl e
      | Inr (modules', h1) \<Rightarrow>
          (case findInS lc (exceptionsS nodes) term h1 of
             Inl e \<Rightarrow> Inl e
           | Inr (exceptions', h2) \<Rightarrow>
               (case findInS lc (tasksS nodes) term h2 of
                  Inl e \<Rightarrow> Inl e
                | Inr (tasks', h3) \<Rightarrow>
                    Inr (parseAllS [] h3
                           (addCategoryS modules' Module @ addCategoryS exceptions' Exception
                            @ addCategoryS tasks' MixTask)))))"

definition getSuggestionsS ::
  "(string \<Rightarrow> string \<Rightarrow> int) \<Rightarrow> IndexS \<Rightarrow> string \<Rightarrow> store
     \<Rightarrow> error + SuggestionItem list \<times> store" where
  "getSuggestionsS lc nodes term h =
     (if length (trim term) = 0 then Inr ([], h)
      else (case flatResultsS lc nodes term h of
              Inl e \<Rightarrow> Inl e
            | Inr (results, h') \<Rightarrow> Inr (take resultsCount (array_sort compareItems results), h')))"

text \<open>
  The index a store holds: the entries with the cells of their children in place of
  the positions. An index is well formed in a store that holds an object at every
  position the index names.
\<close>

definition childOf :: "Cell \<Rightarrow> ChildEntry" where
  "childOf c = \<lparr>cid = o_id c, anchor = o_anchor c, label = o_label c\<rparr>"

definition entryOf :: "store \<Rightarrow> EntryS \<Rightarrow> Entry" where
  "entryOf h e =
     \<lparr>eid = eidS e, title = titleS e,
      nodeGroups = map (\<lambda>g. (fst g, map (\<lambda>r. childOf (h ! r)) (snd g))) (nodeGroupsS e)\<rparr>"

definition indexOf_store :: "store \<Rightarrow> IndexS \<Rightarrow> Index" where
  "indexOf_store h nodes =
     \<lparr>modules = map (entryOf h) (modulesS nodes),
      exceptions = map (entryOf h) (exceptionsS nodes),
      tasks = map (entryOf h) (tasksS nodes)\<rparr>"

definition wfEntry :: "store \<Rightarrow> EntryS \<Rightarrow> bool" where
  "wfEntry h e = list_all (\<lambda>g. list_all (\<lambda>r. r < length h) (snd g)) (nodeGroupsS e)"

definition wfIndex :: "store \<Rightarrow> IndexS \<Rightarrow> bool" where
  "wfIndex h nodes =
     (list_all (wfEntry h) (modulesS nodes) \<and> list_all (wfEntry h) (exceptionsS nodes)
      \<and> list_all (wfEntry h) (tasksS nodes))"

subsection \<open>An example store\<close>

text \<open>The module \<open>Foo\<close> with the function \<open>bar\<close> and the type \<open>t\<close>: the two children
  are the objects at the positions 0 and 1.\<close>

definition fooStore :: store where
  "fooStore =
     [\<lparr>o_id = ''bar'', o_anchor = Some ''bar/0'', o_label = None, o_match = None\<rparr>,
      \<lparr>o_id = ''t'', o_anchor = Some ''t:t/0'', o_label = None, o_match = None\<rparr>]"

definition fooIndexS :: IndexS where
  "fooIndexS =
     \<lparr>modulesS = [\<lparr>eidS = ''Foo'', titleS = Some ''Foo'',
                    nodeGroupsS = [(''functions'', [0]), (''types'', [1])]\<rparr>],
      exceptionsS = [], tasksS = []\<rparr>"

subsection \<open>Closed forms of the loops\<close>

text \<open>
  The definitions of this subsection are not functions of the file: they say what its
  loops compute when no error is raised, and the lemmas below prove that the loops
  compute exactly that.

  \<open>childMatch\<close> is the \<open>match\<close> that \<^verbatim>\<open>findNested\<close> gives the child \<open>c\<close> of the
  parent \<open>parentId\<close>, \<open>childResult\<close> the copy of the child that carries it, and
  \<open>collect\<close> the accumulator after the reduction.
\<close>

definition childMatch :: "string \<Rightarrow> string \<Rightarrow> string \<Rightarrow> string" where
  "childMatch parentId term c =
     (case (if c = [] then None else str_match c (RegExp_i (escapeText term))) of
        Some m \<Rightarrow> highlight m
      | None \<Rightarrow>
          if str_match (parentId @ ''.'') (RegExp_i (escapeText term)) = None
             \<and> str_match (parentId @ ''.'' @ c) (RegExp_i (escapeText term)) \<noteq> None
          then (case str_match c (RegExp_i (escapeText (last (split (CHR ''.'') term)))) of
                  Some m \<Rightarrow> highlight m | None \<Rightarrow> c)
          else c)"

definition childResult :: "string \<Rightarrow> string \<Rightarrow> ChildEntry \<Rightarrow> ChildResult" where
  "childResult parentId term element =
     ChildEntry.extend element (ChildResult.fields (childMatch parentId term (cid element)))"

fun collect :: "(ChildEntry \<Rightarrow> ChildResult) \<Rightarrow> ChildResult object \<Rightarrow> ChildEntry list \<Rightarrow> ChildResult object" where
  "collect f acc [] = acc"
| "collect f acc (element # elements) =
     (if truthyAt acc (cid element) then collect f acc elements
      else collect f (acc @ [(cid element, f element)]) elements)"

text \<open>One turn of the loop of \<^verbatim>\<open>findIn\<close> over the node groups.\<close>

definition groupStep :: "string \<Rightarrow> string \<Rightarrow> Result \<times> bool \<Rightarrow> string \<times> ChildEntry list \<Rightarrow> Result \<times> bool" where
  "groupStep parentId tm st g =
     (let matches = collect (childResult parentId tm)
                      (case getGroup (fst st) (fst g) of None \<Rightarrow> [] | Some a \<Rightarrow> a) (snd g)
      in if matches = [] then st
         else if fst g = ''types'' then ((fst st)\<lparr>r_types := Some matches\<rparr>, True)
         else if fst g = ''callbacks'' then ((fst st)\<lparr>r_callbacks := Some matches\<rparr>, True)
         else ((fst st)\<lparr>r_functions := Some matches\<rparr>, True))"

text \<open>The match of the title of an entry, as \<^verbatim>\<open>findIn\<close> computes it.\<close>

definition titleMatch :: "string \<Rightarrow> Entry \<Rightarrow> Match option" where
  "titleMatch t e = (if truthy (title e) then str_match (the (title e)) (RegExp_i (escapeText t)) else None)"

subsection \<open>Closed forms and abstractions for the store\<close>

text \<open>
  Again no functions of the file: \<open>collectS\<close> is what the reduction of
  \<^verbatim>\<open>findNested\<close> does to the accumulator and the store, \<open>resultOf\<close> reads a copy in
  the store as the child of a result, and \<open>objOf\<close> reads an accumulator.
\<close>

fun collectS :: "(string \<Rightarrow> string) \<Rightarrow> nat object \<Rightarrow> store \<Rightarrow> nat list \<Rightarrow> nat object \<times> store" where
  "collectS mf acc h [] = (acc, h)"
| "collectS mf acc h (r # rs) =
     (if truthyAt acc (o_id (h ! r)) then collectS mf acc h rs
      else collectS mf (acc @ [(o_id (h ! r), length h)])
             (h @ [(h ! r)\<lparr>o_match := Some (mf (o_id (h ! r)))\<rparr>]) rs)"

definition resultOf :: "Cell \<Rightarrow> ChildResult" where
  "resultOf c =
     \<lparr>cid = o_id c, anchor = o_anchor c, label = o_label c,
      cmatch = (case o_match c of None \<Rightarrow> [] | Some m \<Rightarrow> m)\<rparr>"

definition objOf :: "store \<Rightarrow> nat object \<Rightarrow> ChildResult object" where
  "objOf h acc = map (\<lambda>(k, r). (k, resultOf (h ! r))) acc"

text \<open>One turn of the loop of \<^verbatim>\<open>findIn\<close> over the node groups, on the store.\<close>

definition groupStepS ::
  "string \<Rightarrow> string \<Rightarrow> (ResultS \<times> bool) \<times> store \<Rightarrow> string \<times> nat list
     \<Rightarrow> (ResultS \<times> bool) \<times> store" where
  "groupStepS parentId tm sh g =
     (case collectS (childMatch parentId tm)
             (case getGroupS (fst (fst sh)) (fst g) of None \<Rightarrow> [] | Some a \<Rightarrow> a)
             (snd sh) (snd g) of
        (matches, h') \<Rightarrow>
          (if matches = [] then fst sh
           else if fst g = ''types'' then ((fst (fst sh))\<lparr>rs_types := Some matches\<rparr>, True)
           else if fst g = ''callbacks'' then ((fst (fst sh))\<lparr>rs_callbacks := Some matches\<rparr>, True)
           else ((fst (fst sh))\<lparr>rs_functions := Some matches\<rparr>, True),
           h'))"

text \<open>
  The positions a result holds, and what the proofs maintain about them: they are
  distinct, they were allocated after the store had \<open>n0\<close> cells, and their cells carry
  a \<open>match\<close>.
\<close>

definition optList :: "'a list option \<Rightarrow> 'a list" where
  "optList x = (case x of None \<Rightarrow> [] | Some a \<Rightarrow> a)"

definition refsR :: "ResultS \<Rightarrow> nat list" where
  "refsR r = map snd (optList (rs_functions r) @ optList (rs_callbacks r) @ optList (rs_types r))"

definition refsM :: "'a MatchResultS_scheme \<Rightarrow> nat list" where
  "refsM r = optList (ms_functions r) @ optList (ms_callbacks r) @ optList (ms_types r)"

definition freshRefs :: "nat \<Rightarrow> store \<Rightarrow> nat list \<Rightarrow> bool" where
  "freshRefs n0 h rs =
     (distinct rs \<and> list_all (\<lambda>r. n0 \<le> r \<and> r < length h \<and> o_match (h ! r) \<noteq> None) rs)"

text \<open>The results as the definitions of the first part have them, read from a store.\<close>

definition absResult :: "store \<Rightarrow> ResultS \<Rightarrow> Result" where
  "absResult h r =
     \<lparr>r_id = rs_id r, r_match = rs_match r,
      r_functions = map_option (objOf h) (rs_functions r),
      r_callbacks = map_option (objOf h) (rs_callbacks r),
      r_types = map_option (objOf h) (rs_types r)\<rparr>"

definition absMatchResult :: "store \<Rightarrow> MatchResultS \<Rightarrow> MatchResult" where
  "absMatchResult h r =
     \<lparr>rid = ridS r, rmatch = rmatchS r,
      m_functions = map_option (map (\<lambda>x. resultOf (h ! x))) (ms_functions r),
      m_callbacks = map_option (map (\<lambda>x. resultOf (h ! x))) (ms_callbacks r),
      m_types = map_option (map (\<lambda>x. resultOf (h ! x))) (ms_types r)\<rparr>"

definition absTagged :: "store \<Rightarrow> TaggedResultS \<Rightarrow> TaggedResult" where
  "absTagged h r =
     \<lparr>rid = ridS r, rmatch = rmatchS r,
      m_functions = map_option (map (\<lambda>x. resultOf (h ! x))) (ms_functions r),
      m_callbacks = map_option (map (\<lambda>x. resultOf (h ! x))) (ms_callbacks r),
      m_types = map_option (map (\<lambda>x. resultOf (h ! x))) (ms_types r),
      category = categoryS r\<rparr>"

section \<open>Properties\<close>

subsection \<open>Searching and replacing\<close>

lemma canonicalize_dot: "canonicalize c = CHR ''.'' \<longleftrightarrow> c = CHR ''.''"
  by (auto simp: canonicalize_def split: if_splits)

lemma startsWithI_iff:
  "startsWithI p s \<longleftrightarrow>
     length p \<le> length s \<and> map canonicalize (take (length p) s) = map canonicalize p"
  by (induction p s rule: startsWithI.induct) auto

lemma startsWith_iff: "startsWith p s \<longleftrightarrow> length p \<le> length s \<and> take (length p) s = p"
  by (induction p s rule: startsWith.induct) auto

lemma startsWith_imp_I: "startsWith p s \<Longrightarrow> startsWithI p s"
  by (simp add: startsWith_iff startsWithI_iff)

lemma searchI_Some:
  "searchI p s = Some i \<Longrightarrow>
     i \<le> length s \<and> startsWithI p (drop i s) \<and> (\<forall>j<i. \<not> startsWithI p (drop j s))"
proof (induction p s arbitrary: i rule: searchI.induct)
  case (1 p)
  then show ?case by (auto split: if_splits)
next
  case (2 p c cs)
  show ?case
  proof (cases "startsWithI p (c # cs)")
    case True
    with 2 show ?thesis by simp
  next
    case False
    with 2(2) obtain k where k: "searchI p cs = Some k" "i = Suc k" by auto
    from 2(1)[OF False k(1)] have ih: "k \<le> length cs" "startsWithI p (drop k cs)"
      "\<forall>j<k. \<not> startsWithI p (drop j cs)" by auto
    have "\<forall>j<Suc k. \<not> startsWithI p (drop j (c # cs))"
    proof (intro allI impI)
      fix j assume "j < Suc k"
      then show "\<not> startsWithI p (drop j (c # cs))"
        using False ih(3) by (cases j) auto
    qed
    with ih k show ?thesis by simp
  qed
qed

lemma searchI_None:
  "searchI p s = None \<Longrightarrow> j \<le> length s \<Longrightarrow> \<not> startsWithI p (drop j s)"
proof (induction p s arbitrary: j rule: searchI.induct)
  case (1 p)
  then show ?case by (cases p) (auto split: if_splits)
next
  case (2 p c cs)
  then show ?case by (cases j) (auto split: if_splits)
qed

lemma searchI_found:
  "j \<le> length s \<Longrightarrow> startsWithI p (drop j s) \<Longrightarrow> \<exists>i\<le>j. searchI p s = Some i"
  by (metis searchI_None searchI_Some not_le_imp_less option.exhaust)

lemma indexOf_Some:
  "indexOf p s = Some i \<Longrightarrow>
     i \<le> length s \<and> startsWith p (drop i s) \<and> (\<forall>j<i. \<not> startsWith p (drop j s))"
proof (induction p s arbitrary: i rule: indexOf.induct)
  case (1 p)
  then show ?case by (auto split: if_splits)
next
  case (2 p c cs)
  show ?case
  proof (cases "startsWith p (c # cs)")
    case True
    with 2 show ?thesis by simp
  next
    case False
    with 2(2) obtain k where k: "indexOf p cs = Some k" "i = Suc k" by auto
    from 2(1)[OF False k(1)] have ih: "k \<le> length cs" "startsWith p (drop k cs)"
      "\<forall>j<k. \<not> startsWith p (drop j cs)" by auto
    have "\<forall>j<Suc k. \<not> startsWith p (drop j (c # cs))"
    proof (intro allI impI)
      fix j assume "j < Suc k"
      then show "\<not> startsWith p (drop j (c # cs))"
        using False ih(3) by (cases j) auto
    qed
    with ih k show ?thesis by simp
  qed
qed

lemma indexOf_None:
  "indexOf p s = None \<Longrightarrow> j \<le> length s \<Longrightarrow> \<not> startsWith p (drop j s)"
proof (induction p s arbitrary: j rule: indexOf.induct)
  case (1 p)
  then show ?case by (cases p) (auto split: if_splits)
next
  case (2 p c cs)
  then show ?case by (cases j) (auto split: if_splits)
qed

text \<open>The exact search for the matched text finds the position of the match: an exact
  occurrence further left would have been a match further left.\<close>
lemma indexOf_matched:
  assumes "searchI p s = Some i"
  shows "indexOf (take (length p) (drop i s)) s = Some i"
proof -
  let ?m = "take (length p) (drop i s)"
  from searchI_Some[OF assms] have i: "i \<le> length s" "startsWithI p (drop i s)"
    and least: "\<forall>j<i. \<not> startsWithI p (drop j s)" by auto
  from i(2) have len: "length p \<le> length (drop i s)" by (simp add: startsWithI_iff)
  then have lm: "length ?m = length p" by simp
  have canon: "map canonicalize ?m = map canonicalize p"
    using i(2) by (simp add: startsWithI_iff)
  have here: "startsWith ?m (drop i s)"
    using len by (simp add: startsWith_iff)
  have earlier: "\<not> startsWith ?m (drop j s)" if "j < i" for j
  proof
    assume "startsWith ?m (drop j s)"
    then have "length ?m \<le> length (drop j s)" "take (length ?m) (drop j s) = ?m"
      by (simp_all add: startsWith_iff)
    then have "startsWithI p (drop j s)"
      using lm canon by (simp add: startsWithI_iff)
    with least that show False by blast
  qed
  show ?thesis
  proof (cases "indexOf ?m s")
    case None
    from indexOf_None[OF None i(1)] here show ?thesis by simp
  next
    case (Some k)
    from indexOf_Some[OF Some] have k: "startsWith ?m (drop k s)"
      "\<forall>j<k. \<not> startsWith ?m (drop j s)" by auto
    have "k = i"
      using k here earlier by (meson linorder_neqE_nat)
    with Some show ?thesis by simp
  qed
qed

text \<open>A replacement text without a dollar sign stands for itself.\<close>

lemma getSubstitution_plain:
  "CHR ''$'' \<notin> set r \<Longrightarrow> getSubstitution m pre post r = r"
  by (induction m pre post r rule: getSubstitution.induct) auto

lemma highlight_plain:
  assumes "str_match s (RegExp_i (escapeText t)) = Some m" "CHR ''$'' \<notin> set (m0 m)"
  shows "highlight m = take (index m) s @ ''<em>'' @ m0 m @ ''</em>'' @ drop (index m + length t) s"
proof -
  from assms(1) obtain i where i: "searchI t s = Some i"
    and m: "m = \<lparr>m0 = take (length t) (drop i s), index = i, input = s\<rparr>"
    by (auto simp: escapeText_def split: option.splits)
  from searchI_Some[OF i] have "length t \<le> length (drop i s)" by (simp add: startsWithI_iff)
  then have lm: "length (m0 m) = length t" using m by simp
  have "indexOf (m0 m) (input m) = Some i" using indexOf_matched[OF i] m by simp
  moreover have "getSubstitution (m0 m) pre post (''<em>'' @ m0 m @ ''</em>'') = ''<em>'' @ m0 m @ ''</em>''" for pre post
    using assms(2) by (intro getSubstitution_plain) auto
  ultimately show ?thesis
    using m lm by (simp add: highlight_def str_replace_def Let_def)
qed

subsection \<open>The last segment of a dotted term\<close>

lemma split_not_Nil: "split sep s \<noteq> []"
  by (induction s) (auto split: list.splits)

lemma split_single: "sep \<notin> set s \<Longrightarrow> split sep s = [s]"
  by (induction s) auto

lemma split_many: "sep \<in> set s \<Longrightarrow> \<exists>w v vs. split sep s = w # v # vs"
proof (induction s)
  case Nil
  then show ?case by simp
next
  case (Cons c cs)
  show ?case
  proof (cases "c = sep")
    case True
    then show ?thesis using split_not_Nil[of sep cs] by (cases "split sep cs") auto
  next
    case False
    with Cons show ?thesis by auto
  qed
qed

lemma last_split: "last (split sep s) = rev (takeWhile (\<lambda>c. c \<noteq> sep) (rev s))"
proof (induction s)
  case Nil
  then show ?case by simp
next
  case (Cons c cs)
  show ?case
  proof (cases "c = sep")
    case True
    then show ?thesis using Cons split_not_Nil[of sep cs] by (simp add: takeWhile_append)
  next
    case False
    show ?thesis
    proof (cases "sep \<in> set cs")
      case True
      from split_many[OF True] obtain w v vs where s: "split sep cs = w # v # vs" by blast
      with Cons False True show ?thesis by (auto simp: takeWhile_append)
    next
      case no: False
      with False show ?thesis by (simp add: split_single takeWhile_append)
    qed
  qed
qed

lemma last_split_append:
  "last (split sep (a @ sep # b)) = last (split sep b)"
  by (auto simp: last_split takeWhile_append takeWhile_eq_all_conv[THEN iffD2])

lemma last_split_idem: "last (split sep (last (split sep s))) = last (split sep s)"
  by (simp add: last_split)

lemma last_split_suffix: "\<exists>n\<le>length s. last (split sep s) = drop n s"
proof -
  define k where "k = length (takeWhile (\<lambda>c. c \<noteq> sep) (rev s))"
  have tw: "takeWhile (\<lambda>c. c \<noteq> sep) (rev s) = take k (rev s)"
    unfolding k_def by (rule takeWhile_eq_take)
  have "rev (take k (rev s)) = drop (length s - k) s"
    by (simp add: rev_take)
  with tw have "last (split sep s) = drop (length s - k) s"
    by (simp add: last_split)
  then show ?thesis
    by (intro exI[of _ "length s - k"]) simp
qed

subsection \<open>The qualified-name branch finds its reduced match\<close>

text \<open>
  When the term occurs in \<open>p.c\<close> but neither in \<open>p.\<close> nor in \<open>c\<close>, the occurrence
  starts in \<open>p.\<close> and ends in \<open>c\<close>: the term has a dot where \<open>p.\<close> ends, and what
  follows that dot is a prefix of \<open>c\<close>. The last segment of the term is a suffix of
  that prefix, so it occurs in \<open>c\<close>.
\<close>

lemma startsWithI_drop: "startsWithI p s \<Longrightarrow> startsWithI (drop n p) (drop n s)"
proof (induction p s arbitrary: n rule: startsWithI.induct)
  case (3 p ps c cs)
  then show ?case by (cases n) auto
qed auto

lemma startsWithI_append:
  "startsWithI (a @ b) s \<longleftrightarrow> startsWithI a s \<and> startsWithI b (drop (length a) s)"
  by (induction a s rule: startsWithI.induct) auto

lemma startsWithI_short:
  "length t \<le> length q \<Longrightarrow> startsWithI t (q @ r) = startsWithI t q"
  by (simp add: startsWithI_iff)

lemma qualified_reduced_search:
  assumes c: "searchI t c = None"
    and p: "searchI t (p @ ''.'') = None"
    and pc: "searchI t (p @ ''.'' @ c) = Some i"
  shows "\<exists>j. searchI (last (split (CHR ''.'') t)) c = Some j"
proof -
  from searchI_Some[OF pc] have i: "i \<le> length (p @ ''.'' @ c)"
    and at: "startsWithI t (drop i (p @ ''.'' @ c))" by auto
  have ip: "i \<le> length p"
  proof (rule ccontr)
    assume "\<not> i \<le> length p"
    then obtain j where j: "i = length p + 1 + j" by (metis add.commute less_natE not_le_imp_less add_Suc_right Suc_eq_plus1 add.assoc)
    with i have "j \<le> length c" by simp
    moreover from at j have "startsWithI t (drop j c)" by simp
    ultimately show False using searchI_None[OF c] by blast
  qed
  define q where "q = drop i p"
  from ip at have atq: "startsWithI t (q @ ''.'' @ c)" by (simp add: q_def)
  from ip have "\<not> startsWithI t (drop i (p @ ''.''))" using searchI_None[OF p, of i] by simp
  with ip have nq: "\<not> startsWithI t (q @ ''.'')" by (simp add: q_def)
  have long: "length q + 1 < length t"
  proof (rule ccontr)
    assume "\<not> length q + 1 < length t"
    then have "length t \<le> length (q @ ''.'')" by simp
    from startsWithI_short[OF this, of c] atq nq show False by simp
  qed
  define t1 where "t1 = take (length q) t"
  define t2 where "t2 = drop (Suc (length q)) t"
  have t: "t = t1 @ (t ! length q) # t2"
    using long by (simp add: t1_def t2_def id_take_nth_drop)
  have l1: "length t1 = length q" using long by (simp add: t1_def)
  from atq have "startsWithI (t1 @ [t ! length q] @ t2) (q @ ''.'' @ c)" using t by simp
  then have d: "startsWithI [t ! length q] (''.'' @ c)" and t2c: "startsWithI t2 c"
    using l1 by (simp_all add: startsWithI_append)
  from d have "canonicalize (t ! length q) = canonicalize (CHR ''.'')" by simp
  then have "t ! length q = CHR ''.''"
    by (metis canonicalize_dot)
  with t have "last (split (CHR ''.'') t) = last (split (CHR ''.'') t2)"
    by (metis last_split_append)
  moreover obtain n where n: "n \<le> length t2" "last (split (CHR ''.'') t2) = drop n t2"
    using last_split_suffix by blast
  moreover have "length t2 \<le> length c" using t2c by (simp add: startsWithI_iff)
  moreover have "startsWithI (drop n t2) (drop n c)" using t2c by (rule startsWithI_drop)
  ultimately show ?thesis
    using searchI_found[of n c "drop n t2"] by auto
qed

subsection \<open>The loops raise no error\<close>

lemma str_match_None: "str_match s (RegExp_i (escapeText t)) = None \<longleftrightarrow> searchI t s = None"
  by (simp add: escapeText_def split: option.splits)

lemma str_match_empty_None: "(if c = [] then None else str_match c (RegExp_i (escapeText t))) = None
   \<Longrightarrow> str_match (p @ ''.'' @ c) (RegExp_i (escapeText t)) \<noteq> None
   \<Longrightarrow> str_match (p @ ''.'') (RegExp_i (escapeText t)) = None
   \<Longrightarrow> c \<noteq> [] \<and> searchI t c = None"
  by (cases "c = []") (auto simp: str_match_None)

lemma qualified_reduced_match:
  assumes "(if c = [] then None else str_match c (RegExp_i (escapeText t))) = None"
    and "str_match (p @ ''.'') (RegExp_i (escapeText t)) = None"
    and "str_match (p @ ''.'' @ c) (RegExp_i (escapeText t)) \<noteq> None"
    and "last (split (CHR ''.'') tm) = last (split (CHR ''.'') t)"
  shows "c \<noteq> [] \<and> (\<exists>m. str_match c (RegExp_i (escapeText (last (split (CHR ''.'') tm)))) = Some m)"
proof -
  from str_match_empty_None[OF assms(1,3,2)] have c: "c \<noteq> []" "searchI t c = None" by auto
  from assms(2) have p: "searchI t (p @ ''.'') = None" by (simp add: str_match_None)
  from assms(3) obtain i where "searchI t (p @ ''.'' @ c) = Some i"
    by (auto simp: str_match_None)
  from qualified_reduced_search[OF c(2) p this] assms(4) c(1) show ?thesis
    by (cases "str_match c (RegExp_i (escapeText (last (split (CHR ''.'') tm))))")
       (auto simp: str_match_None)
qed

lemma extend_cmatch:
  "(ChildEntry.extend e (ChildResult.fields x))\<lparr>cmatch := y\<rparr> = ChildEntry.extend e (ChildResult.fields y)"
  by (simp add: ChildEntry.defs ChildResult.defs)

lemma findNested_reduce_collect:
  "last (split (CHR ''.'') tm) = last (split (CHR ''.'') t) \<Longrightarrow>
   findNested_reduce p (RegExp_i (escapeText t)) tm acc es = Inr (collect (childResult p t) acc es)"
proof (induction es arbitrary: tm acc)
  case Nil
  then show ?case by simp
next
  case (Cons e es)
  let ?M = "RegExp_i (escapeText t)"
  let ?c = "cid e"
  show ?case
  proof (cases "truthyAt acc ?c")
    case True
    then show ?thesis using Cons by simp
  next
    case new: False
    show ?thesis
    proof (cases "if ?c = [] then None else str_match ?c ?M")
      case (Some m)
      then have "childMatch p t ?c = highlight m" by (simp add: childMatch_def)
      then show ?thesis using new Some Cons
        by (simp add: Let_def extend_cmatch childResult_def)
    next
      case None
      show ?thesis
      proof (cases "str_match (p @ ''.'') ?M = None \<and> str_match (p @ ''.'' @ ?c) ?M \<noteq> None")
        case True
        from qualified_reduced_match[OF None _ _ Cons.prems] True
        obtain m where m: "?c \<noteq> []" "str_match ?c (RegExp_i (escapeText (last (split (CHR ''.'') tm)))) = Some m"
          by blast
        then have cm: "childMatch p t ?c = highlight m"
          using None True Cons.prems by (simp add: childMatch_def)
        have "last (split (CHR ''.'') (last (split (CHR ''.'') tm))) = last (split (CHR ''.'') t)"
          using Cons.prems by (simp add: last_split_idem)
        from Cons.IH[OF this] show ?thesis
          using new None True m cm by (simp add: Let_def extend_cmatch childResult_def)
      next
        case False
        then have "childMatch p t ?c = ?c" using None by (auto simp: childMatch_def)
        then show ?thesis using new None False Cons
          by (auto simp: Let_def extend_cmatch childResult_def)
      qed
    qed
  qed
qed

lemma findNested_collect:
  "findNested es p (RegExp_i (escapeText t)) t acc =
     Inr (collect (childResult p t) (case acc of None \<Rightarrow> [] | Some a \<Rightarrow> a) es)"
  by (simp add: findNested_def findNested_reduce_collect)


lemma findIn_groups_fold:
  "findIn_groups p (RegExp_i (escapeText t)) t st gs = Inr (foldl (groupStep p t) st gs)"
proof (induction gs arbitrary: st)
  case Nil
  then show ?case by simp
next
  case (Cons g gs)
  obtain key nodes where g: "g = (key, nodes)" by (cases g)
  obtain result hasMatch where st: "st = (result, hasMatch)" by (cases st)
  show ?case
    unfolding g st
    by (simp add: findNested_collect Cons.IH groupStep_def Let_def)
qed

lemma findIn_element_total:
  "\<exists>r. findIn_element lc (RegExp_i (escapeText t)) t e = Inr r"
  by (simp add: findIn_element_def Let_def findIn_groups_fold split: prod.splits)

lemma findIn_map_total:
  "\<exists>rs. findIn_map lc (RegExp_i (escapeText t)) t es = Inr rs"
proof (induction es)
  case Nil
  then show ?case by simp
next
  case (Cons e es)
  then obtain rs where rs: "findIn_map lc (RegExp_i (escapeText t)) t es = Inr rs" by blast
  obtain r where "findIn_element lc (RegExp_i (escapeText t)) t e = Inr r"
    using findIn_element_total by blast
  with rs show ?case by simp
qed

lemma findIn_total: "\<exists>rs. findIn lc es t = Inr rs"
  by (simp add: findIn_def findIn_map_total)

lemma flatResults_total: "\<exists>flat. flatResults lc nodes t = Inr flat"
proof -
  obtain ms where ms: "findIn lc (modules nodes) t = Inr ms" using findIn_total by blast
  obtain es where es: "findIn lc (exceptions nodes) t = Inr es" using findIn_total by blast
  obtain ts where ts: "findIn lc (tasks nodes) t = Inr ts" using findIn_total by blast
  show ?thesis by (simp add: flatResults_def ms es ts)
qed

lemma getSuggestions_total: "\<exists>out. getSuggestions lc nodes t = Inr out"
proof -
  obtain flat where "flatResults lc nodes t = Inr flat" using flatResults_total by blast
  then show ?thesis by (simp add: getSuggestions_def)
qed

subsection \<open>Sorting\<close>

lemma set_sortInsert: "set (sortInsert cmp x ys) = insert x (set ys)"
  by (induction ys) auto

lemma length_sortInsert: "length (sortInsert cmp x ys) = Suc (length ys)"
  by (induction ys) auto

lemma sorted_sortInsert:
  "sorted_wrt (\<lambda>a b. weight (s_category b) \<le> weight (s_category a)) ys \<Longrightarrow>
   sorted_wrt (\<lambda>a b. weight (s_category b) \<le> weight (s_category a)) (sortInsert compareItems x ys)"
proof (induction ys)
  case Nil
  then show ?case by simp
next
  case (Cons y ys)
  show ?case
  proof (cases "compareItems x y \<le> 0")
    case True
    then have "weight (s_category y) \<le> weight (s_category x)" by (simp add: compareItems_def)
    with Cons.prems True show ?thesis by fastforce
  next
    case False
    then have "weight (s_category x) \<le> weight (s_category y)" by (simp add: compareItems_def)
    with Cons False show ?thesis by (auto simp: set_sortInsert)
  qed
qed

lemma sorted_array_sort:
  "sorted_wrt (\<lambda>a b. weight (s_category b) \<le> weight (s_category a)) (array_sort compareItems xs)"
  by (induction xs) (simp_all add: array_sort_def sorted_sortInsert)

lemma filter_sortInsert:
  "filter (\<lambda>i. weight (s_category i) = w) (sortInsert compareItems x ys) =
     (if weight (s_category x) = w then x # filter (\<lambda>i. weight (s_category i) = w) ys
      else filter (\<lambda>i. weight (s_category i) = w) ys)"
  by (induction ys) (auto simp: compareItems_def)

lemma stable_array_sort:
  "filter (\<lambda>i. weight (s_category i) = w) (array_sort compareItems xs) =
     filter (\<lambda>i. weight (s_category i) = w) xs"
  by (induction xs) (simp_all add: array_sort_def filter_sortInsert)

lemma length_array_sort: "length (array_sort cmp xs) = length xs"
  by (induction xs) (simp_all add: array_sort_def length_sortInsert)

lemma set_array_sort: "set (array_sort cmp xs) = set xs"
  by (induction xs) (simp_all add: array_sort_def set_sortInsert)

lemma trim_white:
  assumes "\<forall>c\<in>set s. isWhiteSpace c"
  shows "trim s = []"
proof -
  from assms have d: "dropWhile isWhiteSpace s = []" by simp
  show ?thesis unfolding trim_def d by simp
qed

lemma filter_take_prefix: "\<exists>k. filter P (take n xs) = take k (filter P xs)"
proof (induction xs arbitrary: n)
  case Nil
  then show ?case by simp
next
  case (Cons x xs)
  show ?case
  proof (cases n)
    case 0
    then show ?thesis by (intro exI[of _ 0]) simp
  next
    case (Suc m)
    from Cons[of m] obtain k where k: "filter P (take m xs) = take k (filter P xs)" by blast
    show ?thesis
    proof (cases "P x")
      case True
      with k Suc show ?thesis by (intro exI[of _ "Suc k"]) simp
    next
      case False
      with k Suc show ?thesis by (intro exI[of _ k]) simp
    qed
  qed
qed

subsection \<open>The result of one entry in closed form\<close>

lemma groupStep_match: "r_match (fst (groupStep p t st g)) = r_match (fst st)"
  by (simp add: groupStep_def Let_def)

lemma groupStep_id: "r_id (fst (groupStep p t st g)) = r_id (fst st)"
  by (simp add: groupStep_def Let_def)

lemma groupStep_hasMatch: "snd st \<Longrightarrow> snd (groupStep p t st g)"
  by (simp add: groupStep_def Let_def)

lemma foldl_groupStep_match: "r_match (fst (foldl (groupStep p t) st gs)) = r_match (fst st)"
  by (induction gs arbitrary: st) (simp_all add: groupStep_match)

lemma foldl_groupStep_id: "r_id (fst (foldl (groupStep p t) st gs)) = r_id (fst st)"
  by (induction gs arbitrary: st) (simp_all add: groupStep_id)

lemma foldl_groupStep_hasMatch: "snd st \<Longrightarrow> snd (foldl (groupStep p t) st gs)"
  by (induction gs arbitrary: st) (simp_all add: groupStep_hasMatch)

lemma findIn_element_closed:
  "findIn_element lc (RegExp_i (escapeText t)) t e =
     (let st = foldl (groupStep (case title e of None \<Rightarrow> ''undefined'' | Some s \<Rightarrow> s) t)
                 (\<lparr>r_id = eid e,
                   r_match = (case titleMatch t e of Some m \<Rightarrow> Some (highlight m) | None \<Rightarrow> title e),
                   r_functions = None, r_callbacks = None, r_types = None\<rparr>, titleMatch t e \<noteq> None)
                 (nodeGroups e)
      in if snd st then
           Inr (Some \<lparr>rid = r_id (fst st), rmatch = r_match (fst st),
                      m_functions = map_option (sortedValues lc) (r_functions (fst st)),
                      m_callbacks = map_option (sortedValues lc) (r_callbacks (fst st)),
                      m_types = map_option (sortedValues lc) (r_types (fst st))\<rparr>)
         else Inr None)"
  by (simp add: findIn_element_def Let_def findIn_groups_fold titleMatch_def split: prod.splits)

subsection \<open>What the accumulator holds for a child\<close>

lemma truthyAt_append:
  "truthyAt (acc @ [(k, v)]) k' \<longleftrightarrow> truthyAt acc k' \<or> k' = k"
  by (auto simp: truthyAt_def map_of_append split: if_splits)

lemma map_of_append_new:
  "map_of acc k = None \<Longrightarrow> map_of (acc @ [(k, v)]) k = Some v"
  by (simp add: map_add_def)

lemma map_of_append_old:
  "map_of acc k = Some v \<Longrightarrow> map_of (acc @ ys) k = Some v"
  by (simp add: map_add_def split: option.splits)

lemma collect_keeps: "map_of acc k = Some v \<Longrightarrow> map_of (collect f acc es) k = Some v"
  by (induction es arbitrary: acc) (auto simp: map_of_append_old)

lemma collect_new:
  assumes "e \<in> set es" "distinct (map cid es)" "\<not> truthyAt acc (cid e)"
  shows "map_of (collect f acc es) (cid e) = Some (f e)"
  using assms
proof (induction es arbitrary: acc)
  case Nil
  then show ?case by simp
next
  case (Cons x xs)
  show ?case
  proof (cases "x = e")
    case True
    from Cons.prems(3) have "map_of acc (cid e) = None" by (simp add: truthyAt_def)
    then have "map_of (acc @ [(cid e, f e)]) (cid e) = Some (f e)" by (rule map_of_append_new)
    then show ?thesis using True Cons.prems(3) by (simp add: collect_keeps)
  next
    case False
    with Cons.prems have e: "e \<in> set xs" "distinct (map cid xs)" "cid x \<noteq> cid e"
      by auto
    show ?thesis
    proof (cases "truthyAt acc (cid x)")
      case True
      then show ?thesis using Cons.IH[OF e(1,2) Cons.prems(3)] by simp
    next
      case new: False
      have "\<not> truthyAt (acc @ [(cid x, f x)]) (cid e)"
        using Cons.prems(3) e(3) by (simp add: truthyAt_append)
      from Cons.IH[OF e(1,2) this] new show ?thesis by simp
    qed
  qed
qed

subsection \<open>Terms that differ in case only\<close>

lemma isWhiteSpace_canonicalize: "isWhiteSpace (canonicalize c) = isWhiteSpace c"
  by (auto simp: canonicalize_def isWhiteSpace_def split: if_splits)

lemma trim_Nil_iff: "trim s = [] \<longleftrightarrow> (\<forall>c\<in>set s. isWhiteSpace c)"
proof
  assume "trim s = []"
  then have "dropWhile isWhiteSpace (rev (dropWhile isWhiteSpace s)) = []" by (simp add: trim_def)
  then have "\<forall>c\<in>set (dropWhile isWhiteSpace s). isWhiteSpace c" by simp
  then have "dropWhile isWhiteSpace s = []"
    by (metis dropWhile_eq_Nil_conv dropWhile_idem)
  then show "\<forall>c\<in>set s. isWhiteSpace c" by simp
next
  assume "\<forall>c\<in>set s. isWhiteSpace c"
  then show "trim s = []" by (rule trim_white)
qed

lemma trim_canon:
  assumes "map canonicalize t = map canonicalize t'"
  shows "(length (trim t) = 0) = (length (trim t') = 0)"
proof -
  have "(\<forall>c\<in>set t. isWhiteSpace c) = (\<forall>c\<in>set (map canonicalize t). isWhiteSpace c)"
    by (simp add: isWhiteSpace_canonicalize)
  also have "\<dots> = (\<forall>c\<in>set (map canonicalize t'). isWhiteSpace c)"
    by (simp only: assms)
  also have "\<dots> = (\<forall>c\<in>set t'. isWhiteSpace c)"
    by (simp add: isWhiteSpace_canonicalize)
  finally show ?thesis by (simp add: trim_Nil_iff)
qed

lemma startsWithI_canon:
  "map canonicalize t = map canonicalize t' \<Longrightarrow> startsWithI t s = startsWithI t' s"
  using map_eq_imp_length_eq[of canonicalize t canonicalize t']
  by (simp add: startsWithI_iff)

lemma searchI_canon:
  "map canonicalize t = map canonicalize t' \<Longrightarrow> searchI t s = searchI t' s"
proof (induction s)
  case Nil
  then show ?case by auto
next
  case (Cons c cs)
  then show ?case using startsWithI_canon[OF Cons.prems, of "c # cs"] by simp
qed

lemma str_match_canon:
  assumes "map canonicalize t = map canonicalize t'"
  shows "str_match s (RegExp_i (escapeText t)) = str_match s (RegExp_i (escapeText t'))"
  using searchI_canon[OF assms, of s] map_eq_imp_length_eq[OF assms]
  by (auto simp: escapeText_def split: option.splits)

lemma last_split_canon:
  "map canonicalize (last (split (CHR ''.'') t)) = last (split (CHR ''.'') (map canonicalize t))"
proof -
  have "takeWhile (\<lambda>c. c \<noteq> CHR ''.'') (map canonicalize xs)
          = map canonicalize (takeWhile (\<lambda>c. c \<noteq> CHR ''.'') xs)" for xs
    by (induction xs) (simp_all add: canonicalize_dot)
  then show ?thesis
    by (simp add: last_split rev_map)
qed

lemma childMatch_canon:
  assumes "map canonicalize t = map canonicalize t'"
  shows "childMatch p t c = childMatch p t' c"
proof -
  have "map canonicalize (last (split (CHR ''.'') t)) = map canonicalize (last (split (CHR ''.'') t'))"
    using assms by (simp add: last_split_canon)
  then have a: "str_match s (RegExp_i (escapeText (last (split (CHR ''.'') t))))
                  = str_match s (RegExp_i (escapeText (last (split (CHR ''.'') t'))))" for s
    by (rule str_match_canon)
  have b: "str_match s (RegExp_i (escapeText t)) = str_match s (RegExp_i (escapeText t'))" for s
    using assms by (rule str_match_canon)
  show ?thesis
    unfolding childMatch_def a b by (rule refl)
qed

lemma groupStep_canon:
  assumes "map canonicalize t = map canonicalize t'"
  shows "groupStep p t = groupStep p t'"
proof -
  have "childResult p t = childResult p t'"
    using childMatch_canon[OF assms] by (simp add: childResult_def fun_eq_iff)
  then show ?thesis by (intro ext) (simp only: groupStep_def)
qed

lemma findIn_element_canon:
  assumes "map canonicalize t = map canonicalize t'"
  shows "findIn_element lc (RegExp_i (escapeText t)) t e = findIn_element lc (RegExp_i (escapeText t')) t' e"
proof -
  have "titleMatch t e = titleMatch t' e"
    using str_match_canon[OF assms] by (simp add: titleMatch_def)
  then show ?thesis
    unfolding findIn_element_closed by (simp add: groupStep_canon[OF assms])
qed

lemma findIn_canon:
  assumes "map canonicalize t = map canonicalize t'"
  shows "findIn lc es t = findIn lc es t'"
  unfolding findIn_def
  by (induction es) (auto simp: findIn_element_canon[OF assms] split: sum.splits)

lemma getSuggestions_canon:
  assumes "map canonicalize t = map canonicalize t'"
  shows "getSuggestions lc nodes t = getSuggestions lc nodes t'"
  unfolding getSuggestions_def flatResults_def findIn_canon[OF assms] trim_canon[OF assms]
  by (rule refl)

lemma searchI_substring:
  "searchI t s \<noteq> None \<longleftrightarrow> (\<exists>u v w. s = u @ v @ w \<and> map canonicalize v = map canonicalize t)"
proof
  assume "searchI t s \<noteq> None"
  then obtain i where i: "searchI t s = Some i" by blast
  from searchI_Some[OF i] have "startsWithI t (drop i s)" by simp
  then have "length t \<le> length (drop i s)"
    "map canonicalize (take (length t) (drop i s)) = map canonicalize t"
    by (simp_all add: startsWithI_iff)
  moreover have "s = take i s @ take (length t) (drop i s) @ drop (length t) (drop i s)"
    by (simp only: append_take_drop_id)
  ultimately show "\<exists>u v w. s = u @ v @ w \<and> map canonicalize v = map canonicalize t"
    by blast
next
  assume "\<exists>u v w. s = u @ v @ w \<and> map canonicalize v = map canonicalize t"
  then obtain u v w where s: "s = u @ v @ w" and v: "map canonicalize v = map canonicalize t"
    by blast
  from v have "length v = length t" by (rule map_eq_imp_length_eq)
  with v have "startsWithI t (drop (length u) s)"
    by (simp add: s startsWithI_iff)
  moreover have "length u \<le> length s" by (simp add: s)
  ultimately show "searchI t s \<noteq> None"
    using searchI_found by fastforce
qed

subsection \<open>What is flattened passed \<^verbatim>\<open>isMatch\<close>\<close>

text \<open>Every suggestion made for a result is made of the result itself or of one of its
  children, and of an item whose match string differs from its id.\<close>

lemma flattened_items_pass_isMatch:
  assumes "x \<in> set (parseModuleResults r)"
  shows "(x = serialize (EntryItem r) (rid r) False \<and> rmatch r \<noteq> Some (rid r))
         \<or> (\<exists>c. x = serialize (ChildItem c) (rid r) True \<and> cmatch c \<noteq> cid c)"
  using assms
  by (auto simp: parseModuleResults_def Let_def isMatch_def split: if_splits)

subsection \<open>The store: the reduction of \<^verbatim>\<open>findNested\<close>\<close>

lemma setMatch_copy:
  "setMatch (snd (jsonCopy h c)) (fst (jsonCopy h c)) m = h @ [c\<lparr>o_match := Some m\<rparr>]"
  by (simp add: setMatch_def jsonCopy_def)

lemma findNestedS_reduce_collectS:
  "list_all (\<lambda>r. r < length h) rs \<Longrightarrow>
   last (split (CHR ''.'') tm) = last (split (CHR ''.'') t) \<Longrightarrow>
   findNestedS_reduce p (RegExp_i (escapeText t)) tm acc h rs
     = Inr (collectS (childMatch p t) acc h rs)"
proof (induction rs arbitrary: tm acc h)
  case Nil
  then show ?case by simp
next
  case (Cons r rs)
  let ?M = "RegExp_i (escapeText t)"
  let ?e = "h ! r"
  let ?c = "o_id ?e"
  from Cons.prems(1) have r: "deref h r = Inr ?e" and rs: "list_all (\<lambda>r. r < length h) rs"
    by (simp_all add: deref_def)
  have rs': "list_all (\<lambda>r. r < length (h @ [x])) rs" for x
    using rs by (auto simp: list_all_iff less_Suc_eq)
  show ?case
  proof (cases "truthyAt acc ?c")
    case True
    then show ?thesis using Cons.IH[OF rs Cons.prems(2)] r by simp
  next
    case new: False
    show ?thesis
    proof (cases "if ?c = [] then None else str_match ?c ?M")
      case (Some m)
      then have cm: "childMatch p t ?c = highlight m" by (simp add: childMatch_def)
      show ?thesis using new Some r Cons.IH[OF rs' Cons.prems(2)]
        by (simp add: Let_def setMatch_def jsonCopy_def cm)
    next
      case None
      show ?thesis
      proof (cases "str_match (p @ ''.'') ?M = None \<and> str_match (p @ ''.'' @ ?c) ?M \<noteq> None")
        case True
        from qualified_reduced_match[OF None _ _ Cons.prems(2)] True
        obtain m where m: "?c \<noteq> []"
          "str_match ?c (RegExp_i (escapeText (last (split (CHR ''.'') tm)))) = Some m"
          by blast
        then have cm: "childMatch p t ?c = highlight m"
          using None True Cons.prems(2) by (simp add: childMatch_def)
        have "last (split (CHR ''.'') (last (split (CHR ''.'') tm))) = last (split (CHR ''.'') t)"
          using Cons.prems(2) by (simp add: last_split_idem)
        from Cons.IH[OF rs' this] show ?thesis
          using new None True m r by (simp add: Let_def setMatch_def jsonCopy_def cm)
      next
        case False
        then have cm: "childMatch p t ?c = ?c" using None by (auto simp: childMatch_def)
        show ?thesis using new None False r Cons.IH[OF rs' Cons.prems(2)]
          by (auto simp: Let_def setMatch_def jsonCopy_def cm)
      qed
    qed
  qed
qed

lemma childResult_fields:
  "childResult p t e =
     \<lparr>cid = cid e, anchor = anchor e, label = label e, cmatch = childMatch p t (cid e)\<rparr>"
  by (simp add: childResult_def ChildEntry.defs ChildResult.defs)

lemma truthyAt_objOf: "truthyAt (objOf h acc) k = truthyAt acc k"
proof -
  have "map_of (objOf h acc) k = map_option (\<lambda>r. resultOf (h ! r)) (map_of acc k)"
    by (induction acc) (auto simp: objOf_def)
  then show ?thesis by (simp add: truthyAt_def)
qed

lemma objOf_append [simp]: "objOf h (a @ b) = objOf h a @ objOf h b"
  by (simp add: objOf_def)

lemma objOf_extend:
  "list_all (\<lambda>kv. snd kv < length h) acc \<Longrightarrow> objOf (h @ new) acc = objOf h acc"
  by (induction acc) (auto simp: objOf_def nth_append)

lemma collectS_collect:
  assumes "list_all (\<lambda>r. r < length h) rs" and "list_all (\<lambda>kv. snd kv < length h) acc"
  shows "\<exists>added new. collectS mf acc h rs = (acc @ added, h @ new)
           \<and> map snd added = [length h..<length h + length new]
           \<and> list_all (\<lambda>c. o_match c \<noteq> None) new
           \<and> objOf (h @ new) (acc @ added)
               = collect (\<lambda>e. \<lparr>cid = cid e, anchor = anchor e, label = label e, cmatch = mf (cid e)\<rparr>)
                   (objOf h acc) (map (\<lambda>r. childOf (h ! r)) rs)"
  using assms
proof (induction rs arbitrary: acc h)
  case Nil
  show ?case
    by (intro exI[of _ "[]"]) simp
next
  case (Cons r rs)
  let ?f = "\<lambda>e. \<lparr>cid = cid e, anchor = anchor e, label = label e, cmatch = mf (cid e)\<rparr>"
  let ?k = "o_id (h ! r)"
  from Cons.prems(1) have r: "r < length h" and rs: "list_all (\<lambda>r. r < length h) rs" by simp_all
  show ?case
  proof (cases "truthyAt acc ?k")
    case True
    from Cons.IH[OF rs Cons.prems(2)] obtain added new where
      "collectS mf acc h rs = (acc @ added, h @ new)"
      "map snd added = [length h..<length h + length new]"
      "list_all (\<lambda>c. o_match c \<noteq> None) new"
      "objOf (h @ new) (acc @ added) = collect ?f (objOf h acc) (map (\<lambda>r. childOf (h ! r)) rs)"
      by blast
    with True show ?thesis
      by (intro exI[of _ added] exI[of _ new]) (simp add: truthyAt_objOf childOf_def)
  next
    case new: False
    let ?cell = "(h ! r)\<lparr>o_match := Some (mf ?k)\<rparr>"
    let ?h1 = "h @ [?cell]"
    let ?acc1 = "acc @ [(?k, length h)]"
    have rs1: "list_all (\<lambda>r. r < length ?h1) rs"
      using rs by (auto simp: list_all_iff less_Suc_eq)
    have acc1: "list_all (\<lambda>kv. snd kv < length ?h1) ?acc1"
      using Cons.prems(2) by (auto simp: list_all_iff less_Suc_eq)
    from Cons.IH[OF rs1 acc1] obtain added new' where ih:
      "collectS mf ?acc1 ?h1 rs = (?acc1 @ added, ?h1 @ new')"
      "map snd added = [length ?h1..<length ?h1 + length new']"
      "list_all (\<lambda>c. o_match c \<noteq> None) new'"
      "objOf (?h1 @ new') (?acc1 @ added)
         = collect ?f (objOf ?h1 ?acc1) (map (\<lambda>r. childOf (?h1 ! r)) rs)"
      by blast
    have children: "map (\<lambda>r. childOf (?h1 ! r)) rs = map (\<lambda>r. childOf (h ! r)) rs"
      using rs by (auto simp: list_all_iff nth_append)
    have "objOf ?h1 acc = objOf h acc"
      using Cons.prems(2) by (rule objOf_extend)
    then have obj1: "objOf ?h1 ?acc1 = objOf h acc @ [(?k, ?f (childOf (h ! r)))]"
      by (simp add: objOf_def resultOf_def childOf_def)
    have upt: "[length h..<length h + length (?cell # new')]
                 = length h # [length ?h1..<length ?h1 + length new']"
      by (simp add: upt_conv_Cons del: upt_Suc)
    show ?thesis
    proof (intro exI[of _ "(?k, length h) # added"] exI[of _ "?cell # new'"] conjI)
      show "collectS mf acc h (r # rs) = (acc @ (?k, length h) # added, h @ ?cell # new')"
        using new ih(1) by simp
      show "map snd ((?k, length h) # added) = [length h..<length h + length (?cell # new')]"
        unfolding upt using ih(2) by simp
      show "list_all (\<lambda>c. o_match c \<noteq> None) (?cell # new')"
        using ih(3) by simp
      show "objOf (h @ ?cell # new') (acc @ (?k, length h) # added)
              = collect ?f (objOf h acc) (map (\<lambda>r. childOf (h ! r)) (r # rs))"
        using ih(4) new unfolding children obj1
        by (simp add: truthyAt_objOf childOf_def)
    qed
  qed
qed

subsection \<open>The store: the loop over the node groups\<close>

lemma collectS_grows: "\<exists>new. snd (collectS mf acc h rs) = h @ new"
proof (induction rs arbitrary: acc h)
  case Nil
  then show ?case by simp
next
  case (Cons r rs)
  show ?case
  proof (cases "truthyAt acc (o_id (h ! r))")
    case True
    then show ?thesis using Cons by simp
  next
    case False
    let ?cell = "(h ! r)\<lparr>o_match := Some (mf (o_id (h ! r)))\<rparr>"
    from Cons[of "acc @ [(o_id (h ! r), length h)]" "h @ [?cell]"] obtain new where
      "snd (collectS mf (acc @ [(o_id (h ! r), length h)]) (h @ [?cell]) rs) = (h @ [?cell]) @ new"
      by blast
    with False show ?thesis by (intro exI[of _ "?cell # new"]) simp
  qed
qed

lemma groupStepS_grows: "\<exists>new. snd (groupStepS p t (st, h) g) = h @ new"
  using collectS_grows[of "childMatch p t" _ h "snd g"]
  by (simp add: groupStepS_def split: prod.splits) (metis snd_conv)

lemma valid_extend:
  "list_all (\<lambda>g. list_all (\<lambda>r. r < length h) (snd g)) gs \<Longrightarrow>
   list_all (\<lambda>g. list_all (\<lambda>r. r < length (h @ new)) (snd g)) gs"
  by (fastforce simp: list_all_iff)

lemma findInS_groups_fold:
  "list_all (\<lambda>g. list_all (\<lambda>r. r < length h) (snd g)) gs \<Longrightarrow>
   findInS_groups p (RegExp_i (escapeText t)) t st h gs = Inr (foldl (groupStepS p t) (st, h) gs)"
proof (induction gs arbitrary: st h)
  case Nil
  then show ?case by simp
next
  case (Cons g gs)
  obtain key nodes where g: "g = (key, nodes)" by (cases g)
  obtain result hasMatch where st: "st = (result, hasMatch)" by (cases st)
  from Cons.prems g have nodes: "list_all (\<lambda>r. r < length h) nodes"
    and gs: "list_all (\<lambda>g. list_all (\<lambda>r. r < length h) (snd g)) gs" by simp_all
  obtain matches h' where c: "collectS (childMatch p t)
      (case getGroupS result key of None \<Rightarrow> [] | Some a \<Rightarrow> a) h nodes = (matches, h')"
    by (cases "collectS (childMatch p t)
      (case getGroupS result key of None \<Rightarrow> [] | Some a \<Rightarrow> a) h nodes")
  from collectS_grows[of "childMatch p t" "case getGroupS result key of None \<Rightarrow> [] | Some a \<Rightarrow> a" h nodes] c
  obtain new where h': "h' = h @ new" by auto
  have gs': "list_all (\<lambda>g. list_all (\<lambda>r. r < length h') (snd g)) gs"
    unfolding h' using gs by (rule valid_extend)
  have fn: "findNestedS nodes p (RegExp_i (escapeText t)) t (getGroupS result key) h = Inr (matches, h')"
    using c nodes by (simp add: findNestedS_def findNestedS_reduce_collectS)
  show ?case
    unfolding g st
    by (simp add: fn Cons.IH[OF gs'] groupStepS_def c)
qed

lemma freshRefs_append:
  "freshRefs n0 h (a @ b) \<longleftrightarrow> freshRefs n0 h a \<and> freshRefs n0 h b \<and> set a \<inter> set b = {}"
  by (auto simp: freshRefs_def)

lemma freshRefs_Nil [simp]: "freshRefs n0 h []"
  by (simp add: freshRefs_def)

lemma freshRefs_extend: "freshRefs n0 h rs \<Longrightarrow> freshRefs n0 (h @ new) rs"
  by (auto simp: freshRefs_def list_all_iff nth_append)

lemma freshRefs_less: "freshRefs n0 h rs \<Longrightarrow> r \<in> set rs \<Longrightarrow> r < length h"
  by (auto simp: freshRefs_def list_all_iff)

lemma freshRefs_added:
  assumes "map snd added = [length h..<length h + length new]"
    and "list_all (\<lambda>c. o_match c \<noteq> None) new" and "n0 \<le> length h"
  shows "freshRefs n0 (h @ new) (map snd added)"
  using assms by (auto simp: freshRefs_def list_all_iff nth_append)

lemma added_ge:
  "map snd added = [length h..<length h + length new] \<Longrightarrow> r \<in> set (map snd added) \<Longrightarrow> length h \<le> r"
  by auto

lemma objOf_fresh:
  "freshRefs n0 h (map snd a) \<Longrightarrow> objOf (h @ new) a = objOf h a"
  by (rule objOf_extend) (auto simp: freshRefs_def list_all_iff)

lemma optList_simps [simp]: "optList None = []" "optList (Some a) = a"
  by (simp_all add: optList_def)

lemma map_option_objOf_fresh:
  "freshRefs n0 h (map snd (optList x)) \<Longrightarrow> map_option (objOf (h @ new)) x = map_option (objOf h) x"
  by (cases x) (simp_all add: objOf_fresh)

lemma absResult_extend:
  assumes "freshRefs n0 h (refsR rS)"
  shows "absResult (h @ new) rS = absResult h rS"
proof -
  from assms have "freshRefs n0 h (map snd (optList (rs_functions rS)))"
    "freshRefs n0 h (map snd (optList (rs_callbacks rS)))"
    "freshRefs n0 h (map snd (optList (rs_types rS)))"
    by (simp_all add: refsR_def freshRefs_append)
  then show ?thesis
    by (simp add: absResult_def map_option_objOf_fresh)
qed

lemma getGroup_absResult:
  "(case getGroup (absResult h rS) key of None \<Rightarrow> [] | Some a \<Rightarrow> a)
     = objOf h (optList (getGroupS rS key))"
  by (cases "getGroupS rS key")
     (auto simp: getGroup_def getGroupS_def absResult_def objOf_def split: if_splits)

lemma childResult_lambda:
  "(\<lambda>e. \<lparr>cid = cid e, anchor = anchor e, label = label e, cmatch = childMatch p t (cid e)\<rparr>)
     = childResult p t"
  by (simp add: fun_eq_iff childResult_fields)

lemma groupStepS_refines:
  assumes nodes: "list_all (\<lambda>r. r < length h) nodes"
    and inv: "freshRefs n0 h (refsR rS)" and n0: "n0 \<le> length h"
  shows "\<exists>rS' hm' new. groupStepS p t ((rS, hm), h) (key, nodes) = ((rS', hm'), h @ new)
           \<and> freshRefs n0 (h @ new) (refsR rS')
           \<and> (absResult (h @ new) rS', hm')
               = groupStep p t (absResult h rS, hm) (key, map (\<lambda>r. childOf (h ! r)) nodes)"
proof -
  define acc0 where "acc0 = optList (getGroupS rS key)"
  from inv have F: "freshRefs n0 h (map snd (optList (rs_functions rS)))"
    and C: "freshRefs n0 h (map snd (optList (rs_callbacks rS)))"
    and T: "freshRefs n0 h (map snd (optList (rs_types rS)))"
    and FC: "set (map snd (optList (rs_functions rS))) \<inter> set (map snd (optList (rs_callbacks rS))) = {}"
    and FT: "set (map snd (optList (rs_functions rS))) \<inter> set (map snd (optList (rs_types rS))) = {}"
    and CT: "set (map snd (optList (rs_callbacks rS))) \<inter> set (map snd (optList (rs_types rS))) = {}"
    by (auto simp: refsR_def freshRefs_append)
  have acc0_cases: "acc0 = (if key = ''types'' then optList (rs_types rS)
                     else if key = ''callbacks'' then optList (rs_callbacks rS)
                     else if key = ''functions'' then optList (rs_functions rS) else [])"
    by (simp add: acc0_def getGroupS_def)
  have acc0_fresh: "freshRefs n0 h (map snd acc0)"
    unfolding acc0_cases using F C T by simp
  then have acc0_valid: "list_all (\<lambda>kv. snd kv < length h) acc0"
    by (auto simp: freshRefs_def list_all_iff)
  from collectS_collect[OF nodes acc0_valid, of "childMatch p t"] obtain added new where
    c: "collectS (childMatch p t) acc0 h nodes = (acc0 @ added, h @ new)"
    and refs: "map snd added = [length h..<length h + length new]"
    and ms: "list_all (\<lambda>c. o_match c \<noteq> None) new"
    and abs: "objOf (h @ new) (acc0 @ added)
               = collect (childResult p t) (objOf h acc0) (map (\<lambda>r. childOf (h ! r)) nodes)"
    unfolding childResult_lambda by blast
  have A: "freshRefs n0 (h @ new) (map snd added)"
    using refs ms n0 by (rule freshRefs_added)
  have F': "freshRefs n0 (h @ new) (map snd (optList (rs_functions rS)))"
    and C': "freshRefs n0 (h @ new) (map snd (optList (rs_callbacks rS)))"
    and T': "freshRefs n0 (h @ new) (map snd (optList (rs_types rS)))"
    using F C T by (simp_all add: freshRefs_extend)
  have AF: "set (map snd added) \<inter> set (map snd (optList (rs_functions rS))) = {}"
    using added_ge[OF refs] freshRefs_less[OF F] by fastforce
  have AC: "set (map snd added) \<inter> set (map snd (optList (rs_callbacks rS))) = {}"
    using added_ge[OF refs] freshRefs_less[OF C] by fastforce
  have AT: "set (map snd added) \<inter> set (map snd (optList (rs_types rS))) = {}"
    using added_ge[OF refs] freshRefs_less[OF T] by fastforce
  define matches where "matches = acc0 @ added"
  have gs: "groupStepS p t ((rS, hm), h) (key, nodes) =
          (if matches = [] then (rS, hm)
           else if key = ''types'' then (rS\<lparr>rs_types := Some (matches)\<rparr>, True)
           else if key = ''callbacks'' then (rS\<lparr>rs_callbacks := Some (matches)\<rparr>, True)
           else (rS\<lparr>rs_functions := Some (matches)\<rparr>, True), h @ new)"
  proof -
    have a0: "(case getGroupS rS key of None \<Rightarrow> [] | Some a \<Rightarrow> a) = acc0"
      by (simp add: acc0_def optList_def)
    show ?thesis
      unfolding groupStepS_def fst_conv snd_conv a0 c[folded matches_def] prod.case by (rule refl)
  qed
  have g: "groupStep p t (absResult h rS, hm) (key, map (\<lambda>r. childOf (h ! r)) nodes) =
          (if matches = [] then (absResult h rS, hm)
           else if key = ''types'' then ((absResult h rS)\<lparr>r_types := Some (objOf (h @ new) (matches))\<rparr>, True)
           else if key = ''callbacks'' then ((absResult h rS)\<lparr>r_callbacks := Some (objOf (h @ new) (matches))\<rparr>, True)
           else ((absResult h rS)\<lparr>r_functions := Some (objOf (h @ new) (matches))\<rparr>, True))"
  proof -
    have "objOf (h @ new) matches = [] \<longleftrightarrow> matches = []"
      by (simp add: objOf_def)
    then show ?thesis
      unfolding groupStep_def Let_def fst_conv snd_conv getGroup_absResult acc0_def[symmetric] abs[folded matches_def, symmetric]
      by simp
  qed
  have ext: "absResult (h @ new) rS = absResult h rS"
    using inv by (rule absResult_extend)
  show ?thesis
  proof (cases "matches = []")
    case True
    show ?thesis
      unfolding gs g using True inv ext
      by (intro exI[of _ rS] exI[of _ hm] exI[of _ new]) (simp add: freshRefs_extend)
  next
    case ne: False
    have upd_types: "absResult (h @ new) (rS\<lparr>rs_types := Some x\<rparr>)
                      = (absResult h rS)\<lparr>r_types := Some (objOf (h @ new) x)\<rparr>" for x
      using ext by (simp add: absResult_def)
    have upd_callbacks: "absResult (h @ new) (rS\<lparr>rs_callbacks := Some x\<rparr>)
                      = (absResult h rS)\<lparr>r_callbacks := Some (objOf (h @ new) x)\<rparr>" for x
      using ext by (simp add: absResult_def)
    have upd_functions: "absResult (h @ new) (rS\<lparr>rs_functions := Some x\<rparr>)
                      = (absResult h rS)\<lparr>r_functions := Some (objOf (h @ new) x)\<rparr>" for x
      using ext by (simp add: absResult_def)
    consider (t) "key = ''types''" | (c) "key = ''callbacks''" | (f) "key = ''functions''"
      | (o) "key \<noteq> ''types''" "key \<noteq> ''callbacks''" "key \<noteq> ''functions''" by blast
    then show ?thesis
    proof cases
      case t
      have "freshRefs n0 (h @ new) (refsR (rS\<lparr>rs_types := Some (matches)\<rparr>))"
        using t A F' C' T' FC FT CT AF AC AT
        by (auto simp: refsR_def freshRefs_append acc0_cases matches_def)
      then show ?thesis
        unfolding gs g using ne t
        by (intro exI[of _ "rS\<lparr>rs_types := Some (matches)\<rparr>"] exI[of _ True] exI[of _ new])
           (simp add: upd_types)
    next
      case c
      have "freshRefs n0 (h @ new) (refsR (rS\<lparr>rs_callbacks := Some (matches)\<rparr>))"
        using c A F' C' T' FC FT CT AF AC AT
        by (auto simp: refsR_def freshRefs_append acc0_cases matches_def)
      then show ?thesis
        unfolding gs g using ne c
        by (intro exI[of _ "rS\<lparr>rs_callbacks := Some (matches)\<rparr>"] exI[of _ True] exI[of _ new])
           (simp add: upd_callbacks)
    next
      case f
      have "freshRefs n0 (h @ new) (refsR (rS\<lparr>rs_functions := Some (matches)\<rparr>))"
        using f A F' C' T' FC FT CT AF AC AT
        by (auto simp: refsR_def freshRefs_append acc0_cases matches_def)
      then show ?thesis
        unfolding gs g using ne f
        by (intro exI[of _ "rS\<lparr>rs_functions := Some (matches)\<rparr>"] exI[of _ True] exI[of _ new])
           (simp add: upd_functions)
    next
      case o
      have "freshRefs n0 (h @ new) (refsR (rS\<lparr>rs_functions := Some (matches)\<rparr>))"
        using o A F' C' T' FC FT CT AF AC AT
        by (auto simp: refsR_def freshRefs_append acc0_cases matches_def)
      then show ?thesis
        unfolding gs g using ne o
        by (intro exI[of _ "rS\<lparr>rs_functions := Some (matches)\<rparr>"] exI[of _ True] exI[of _ new])
           (simp add: upd_functions)
    qed
  qed
qed

lemma children_extend:
  "list_all (\<lambda>g. list_all (\<lambda>r. r < length h) (snd g)) gs \<Longrightarrow>
   map (\<lambda>g. (fst g, map (\<lambda>r. childOf ((h @ new) ! r)) (snd g))) gs
     = map (\<lambda>g. (fst g, map (\<lambda>r. childOf (h ! r)) (snd g))) gs"
  by (auto simp: list_all_iff nth_append)

lemma foldl_groupStepS_refines:
  assumes "list_all (\<lambda>g. list_all (\<lambda>r. r < length h) (snd g)) gs"
    and "freshRefs n0 h (refsR rS)" and "n0 \<le> length h"
  shows "\<exists>rS' hm' new. foldl (groupStepS p t) ((rS, hm), h) gs = ((rS', hm'), h @ new)
           \<and> freshRefs n0 (h @ new) (refsR rS')
           \<and> (absResult (h @ new) rS', hm')
               = foldl (groupStep p t) (absResult h rS, hm)
                   (map (\<lambda>g. (fst g, map (\<lambda>r. childOf (h ! r)) (snd g))) gs)"
  using assms
proof (induction gs arbitrary: rS hm h)
  case Nil
  show ?case
    using Nil.prems(2) by (intro exI[of _ rS] exI[of _ hm] exI[of _ "[]"]) simp
next
  case (Cons g gs)
  obtain key nodes where g: "g = (key, nodes)" by (cases g)
  from Cons.prems(1) g have nodes: "list_all (\<lambda>r. r < length h) nodes"
    and gs: "list_all (\<lambda>g. list_all (\<lambda>r. r < length h) (snd g)) gs" by simp_all
  from groupStepS_refines[OF nodes Cons.prems(2,3), of p t hm key] obtain rS1 hm1 new1 where
    s1: "groupStepS p t ((rS, hm), h) (key, nodes) = ((rS1, hm1), h @ new1)"
    and f1: "freshRefs n0 (h @ new1) (refsR rS1)"
    and a1: "(absResult (h @ new1) rS1, hm1)
               = groupStep p t (absResult h rS, hm) (key, map (\<lambda>r. childOf (h ! r)) nodes)"
    by blast
  have gs1: "list_all (\<lambda>g. list_all (\<lambda>r. r < length (h @ new1)) (snd g)) gs"
    using gs by (rule valid_extend)
  have n1: "n0 \<le> length (h @ new1)" using Cons.prems(3) by simp
  from Cons.IH[OF gs1 f1 n1, of hm1] obtain rS' hm' new2 where
    s2: "foldl (groupStepS p t) ((rS1, hm1), h @ new1) gs = ((rS', hm'), (h @ new1) @ new2)"
    and f2: "freshRefs n0 ((h @ new1) @ new2) (refsR rS')"
    and a2: "(absResult ((h @ new1) @ new2) rS', hm')
               = foldl (groupStep p t) (absResult (h @ new1) rS1, hm1)
                   (map (\<lambda>g. (fst g, map (\<lambda>r. childOf ((h @ new1) ! r)) (snd g))) gs)"
    by blast
  show ?case
  proof (intro exI[of _ rS'] exI[of _ hm'] exI[of _ "new1 @ new2"] conjI)
    show "foldl (groupStepS p t) ((rS, hm), h) (g # gs) = ((rS', hm'), h @ new1 @ new2)"
      using s1 s2 g by simp
    show "freshRefs n0 (h @ new1 @ new2) (refsR rS')"
      using f2 by simp
    show "(absResult (h @ new1 @ new2) rS', hm')
            = foldl (groupStep p t) (absResult h rS, hm)
                (map (\<lambda>g. (fst g, map (\<lambda>r. childOf (h ! r)) (snd g))) (g # gs))"
      using a2 unfolding children_extend[OF gs] a1 g by simp
  qed
qed

subsection \<open>The store: sorted values\<close>

lemma distinct_sortInsert: "distinct (sortInsert cmp x ys) \<longleftrightarrow> x \<notin> set ys \<and> distinct ys"
  by (induction ys) (auto simp: set_sortInsert)

lemma distinct_array_sort: "distinct (array_sort cmp xs) = distinct xs"
  by (induction xs) (simp_all add: array_sort_def distinct_sortInsert set_array_sort[unfolded array_sort_def])

lemma sortInsert_map:
  "sortInsert cmp (f x) (map f ys) = map f (sortInsert (\<lambda>a b. cmp (f a) (f b)) x ys)"
  by (induction ys) auto

lemma array_sort_map:
  "array_sort cmp (map f xs) = map f (array_sort (\<lambda>a b. cmp (f a) (f b)) xs)"
  by (induction xs) (simp_all add: array_sort_def sortInsert_map)

lemma insort_key_map_snd:
  "insort_key (\<lambda>kv. k (fst kv)) (a, f b) (map (\<lambda>(x, y). (x, f y)) xs)
     = map (\<lambda>(x, y). (x, f y)) (insort_key (\<lambda>kv. k (fst kv)) (a, b) xs)"
  by (induction xs) auto

lemma sort_key_map_snd:
  "sort_key (\<lambda>kv. k (fst kv)) (map (\<lambda>(x, y). (x, f y)) xs)
     = map (\<lambda>(x, y). (x, f y)) (sort_key (\<lambda>kv. k (fst kv)) xs)"
  by (induction xs) (auto simp: insort_key_map_snd)

lemma objectValues_map:
  "objectValues (map (\<lambda>(x, y). (x, f y)) obj) = map f (objectValues obj)"
proof -
  have f1: "filter (\<lambda>kv. arrayIndex (fst kv) \<noteq> None) (map (\<lambda>(x, y). (x, f y)) obj)
          = map (\<lambda>(x, y). (x, f y)) (filter (\<lambda>kv. arrayIndex (fst kv) \<noteq> None) obj)"
    by (induction obj) auto
  have f2: "filter (\<lambda>kv. arrayIndex (fst kv) = None) (map (\<lambda>(x, y). (x, f y)) obj)
          = map (\<lambda>(x, y). (x, f y)) (filter (\<lambda>kv. arrayIndex (fst kv) = None) obj)"
    by (induction obj) auto
  have s: "sort_key (\<lambda>kv. the (arrayIndex (fst kv))) (map (\<lambda>(x, y). (x, f y)) xs)
          = map (\<lambda>(x, y). (x, f y)) (sort_key (\<lambda>kv. the (arrayIndex (fst kv))) xs)" for xs
    by (rule sort_key_map_snd[of "\<lambda>k. the (arrayIndex k)"])
  have sn: "map snd (map (\<lambda>(x, y). (x, f y)) xs) = map f (map snd xs)" for xs
    by (induction xs) auto
  show ?thesis
    unfolding objectValues_def f1 f2 s sn by simp
qed

lemma set_objectValues: "set (objectValues obj) = snd ` set obj"
  by (force simp: objectValues_def)

lemma distinct_objectValues:
  assumes "distinct (map snd obj)"
  shows "distinct (objectValues obj)"
proof -
  from assms have d: "distinct obj" and inj: "inj_on snd (set obj)"
    by (simp_all add: distinct_map)
  have "distinct (map snd (sort_key k (filter P obj)))" for k :: "string \<times> 'a \<Rightarrow> nat" and P
    using d inj by (auto simp: distinct_map intro: inj_on_subset)
  moreover have "distinct (map snd (filter P obj))" for P
    using assms by (rule distinct_map_filter)
  moreover have "snd ` set (filter (\<lambda>kv. arrayIndex (fst kv) \<noteq> None) obj)
                   \<inter> snd ` set (filter (\<lambda>kv. arrayIndex (fst kv) = None) obj) = {}"
    using inj by (force simp: inj_on_def)
  ultimately show ?thesis
    by (simp add: objectValues_def)
qed

lemma sortedValues_objOf:
  "sortedValues lc (objOf h obj) = map (\<lambda>x. resultOf (h ! x)) (sortedValuesS lc h obj)"
  by (simp add: sortedValues_def sortedValuesS_def objOf_def objectValues_map array_sort_map
        resultOf_def)

lemma set_sortedValuesS: "set (sortedValuesS lc h obj) = set (map snd obj)"
  by (simp add: sortedValuesS_def set_array_sort set_objectValues)

lemma distinct_sortedValuesS: "distinct (map snd obj) \<Longrightarrow> distinct (sortedValuesS lc h obj)"
  by (simp add: sortedValuesS_def distinct_array_sort distinct_objectValues)

lemma freshRefs_sortedValuesS:
  "freshRefs n0 h (map snd obj) \<Longrightarrow> freshRefs n0 h (sortedValuesS lc h obj)"
  using set_sortedValuesS[of lc h obj] distinct_sortedValuesS[of obj lc h]
  by (simp add: freshRefs_def list_all_iff)

subsection \<open>The store: \<^verbatim>\<open>findIn\<close>\<close>

lemma findInS_element_closed:
  assumes "wfEntry h e"
  shows "findInS_element lc (RegExp_i (escapeText t)) t h e =
     (case foldl (groupStepS (case titleS e of None \<Rightarrow> ''undefined'' | Some s \<Rightarrow> s) t)
             ((\<lparr>rs_id = eidS e,
                rs_match = (case (if truthy (titleS e)
                                  then str_match (the (titleS e)) (RegExp_i (escapeText t))
                                  else None) of
                              Some m \<Rightarrow> Some (highlight m) | None \<Rightarrow> titleS e),
                rs_functions = None, rs_callbacks = None, rs_types = None\<rparr>,
               (if truthy (titleS e) then str_match (the (titleS e)) (RegExp_i (escapeText t))
                else None) \<noteq> None), h)
             (nodeGroupsS e) of
        ((result, hasMatch), h') \<Rightarrow>
          if hasMatch then
            Inr (Some \<lparr>ridS = rs_id result, rmatchS = rs_match result,
                       ms_functions = map_option (sortedValuesS lc h') (rs_functions result),
                       ms_callbacks = map_option (sortedValuesS lc h') (rs_callbacks result),
                       ms_types = map_option (sortedValuesS lc h') (rs_types result)\<rparr>, h')
          else Inr (None, h'))"
  using assms
  by (simp add: findInS_element_def Let_def findInS_groups_fold wfEntry_def split: prod.splits)

lemma refsM_fresh:
  assumes "freshRefs n0 h (refsR rS)"
  shows "freshRefs n0 h
           (refsM \<lparr>ridS = i, rmatchS = m,
                   ms_functions = map_option (sortedValuesS lc h) (rs_functions rS),
                   ms_callbacks = map_option (sortedValuesS lc h) (rs_callbacks rS),
                   ms_types = map_option (sortedValuesS lc h) (rs_types rS)\<rparr>)"
proof -
  have s: "set (optList (map_option (sortedValuesS lc h) x)) = set (map snd (optList x))" for x
    by (cases x) (simp_all add: set_sortedValuesS)
  have f: "freshRefs n0 h (map snd (optList x)) \<Longrightarrow>
           freshRefs n0 h (optList (map_option (sortedValuesS lc h) x))" for x
    by (cases x) (simp_all add: freshRefs_sortedValuesS)
  from assms show ?thesis
    unfolding refsM_def refsR_def map_append
    by (simp add: freshRefs_append f s del: set_map)
qed

lemma entry_abs:
  assumes "freshRefs n0 h (refsR rS)"
  shows "\<lparr>rid = r_id (absResult h rS), rmatch = r_match (absResult h rS),
          m_functions = map_option (sortedValues lc) (r_functions (absResult h rS)),
          m_callbacks = map_option (sortedValues lc) (r_callbacks (absResult h rS)),
          m_types = map_option (sortedValues lc) (r_types (absResult h rS))\<rparr>
         = absMatchResult h
             \<lparr>ridS = rs_id rS, rmatchS = rs_match rS,
              ms_functions = map_option (sortedValuesS lc h) (rs_functions rS),
              ms_callbacks = map_option (sortedValuesS lc h) (rs_callbacks rS),
              ms_types = map_option (sortedValuesS lc h) (rs_types rS)\<rparr>"
  by (simp add: absResult_def absMatchResult_def option.map_comp comp_def sortedValues_objOf)

lemma findInS_element_refines:
  assumes "wfEntry h e"
  shows "\<exists>ro new. findInS_element lc (RegExp_i (escapeText t)) t h e = Inr (ro, h @ new)
          \<and> findIn_element lc (RegExp_i (escapeText t)) t (entryOf h e)
              = Inr (map_option (absMatchResult (h @ new)) ro)
          \<and> freshRefs (length h) (h @ new) (case ro of None \<Rightarrow> [] | Some r \<Rightarrow> refsM r)"
proof -
  let ?tm = "if truthy (titleS e) then str_match (the (titleS e)) (RegExp_i (escapeText t)) else None"
  let ?p = "case titleS e of None \<Rightarrow> ''undefined'' | Some s \<Rightarrow> s"
  let ?r0 = "\<lparr>rs_id = eidS e,
              rs_match = (case ?tm of Some m \<Rightarrow> Some (highlight m) | None \<Rightarrow> titleS e),
              rs_functions = None, rs_callbacks = None, rs_types = None\<rparr>"
  have wf: "list_all (\<lambda>g. list_all (\<lambda>r. r < length h) (snd g)) (nodeGroupsS e)"
    using assms by (simp add: wfEntry_def)
  have fr0: "freshRefs (length h) h (refsR ?r0)" by (simp add: refsR_def)
  from foldl_groupStepS_refines[OF wf fr0 le_refl, of ?p t "?tm \<noteq> None"]
  obtain rS' hm' new where
    s: "foldl (groupStepS ?p t) ((?r0, ?tm \<noteq> None), h) (nodeGroupsS e) = ((rS', hm'), h @ new)"
    and f: "freshRefs (length h) (h @ new) (refsR rS')"
    and a: "(absResult (h @ new) rS', hm')
             = foldl (groupStep ?p t) (absResult h ?r0, ?tm \<noteq> None)
                 (map (\<lambda>g. (fst g, map (\<lambda>r. childOf (h ! r)) (snd g))) (nodeGroupsS e))"
    by blast
  have tm: "titleMatch t (entryOf h e) = ?tm"
    by (simp add: titleMatch_def entryOf_def)
  have te: "title (entryOf h e) = titleS e" "eid (entryOf h e) = eidS e"
    by (simp_all add: entryOf_def)
  have ng: "nodeGroups (entryOf h e)
              = map (\<lambda>g. (fst g, map (\<lambda>r. childOf (h ! r)) (snd g))) (nodeGroupsS e)"
    by (simp add: entryOf_def)
  have init: "absResult h ?r0 =
      \<lparr>r_id = eidS e,
        r_match = (case ?tm of Some m \<Rightarrow> Some (highlight m) | None \<Rightarrow> titleS e),
        r_functions = None, r_callbacks = None, r_types = None\<rparr>"
    by (simp add: absResult_def)
  have pure: "findIn_element lc (RegExp_i (escapeText t)) t (entryOf h e) =
      (if hm' then
         Inr (Some \<lparr>rid = r_id (absResult (h @ new) rS'), rmatch = r_match (absResult (h @ new) rS'),
                    m_functions = map_option (sortedValues lc) (r_functions (absResult (h @ new) rS')),
                    m_callbacks = map_option (sortedValues lc) (r_callbacks (absResult (h @ new) rS')),
                    m_types = map_option (sortedValues lc) (r_types (absResult (h @ new) rS'))\<rparr>)
       else Inr None)"
    unfolding findIn_element_closed Let_def tm te ng init[symmetric] a[symmetric]
    by simp
  show ?thesis
  proof (cases hm')
    case True
    let ?r = "\<lparr>ridS = rs_id rS', rmatchS = rs_match rS',
               ms_functions = map_option (sortedValuesS lc (h @ new)) (rs_functions rS'),
               ms_callbacks = map_option (sortedValuesS lc (h @ new)) (rs_callbacks rS'),
               ms_types = map_option (sortedValuesS lc (h @ new)) (rs_types rS')\<rparr>"
    show ?thesis
    proof (intro exI[of _ "Some ?r"] exI[of _ new] conjI)
      show "findInS_element lc (RegExp_i (escapeText t)) t h e = Inr (Some ?r, h @ new)"
        unfolding findInS_element_closed[OF assms] s using True by simp
      show "findIn_element lc (RegExp_i (escapeText t)) t (entryOf h e)
              = Inr (map_option (absMatchResult (h @ new)) (Some ?r))"
        unfolding pure using True entry_abs[OF f, of lc] by simp
      show "freshRefs (length h) (h @ new) (case Some ?r of None \<Rightarrow> [] | Some r \<Rightarrow> refsM r)"
        using refsM_fresh[OF f] by simp
    qed
  next
    case False
    show ?thesis
    proof (intro exI[of _ None] exI[of _ new] conjI)
      show "findInS_element lc (RegExp_i (escapeText t)) t h e = Inr (None, h @ new)"
        unfolding findInS_element_closed[OF assms] s using False by simp
      show "findIn_element lc (RegExp_i (escapeText t)) t (entryOf h e)
              = Inr (map_option (absMatchResult (h @ new)) None)"
        unfolding pure using False by simp
      show "freshRefs (length h) (h @ new) (case None of None \<Rightarrow> [] | Some r \<Rightarrow> refsM r)"
        by simp
    qed
  qed
qed

lemma wfEntry_extend: "wfEntry h e \<Longrightarrow> wfEntry (h @ new) e"
  unfolding wfEntry_def by (rule valid_extend)

lemma entryOf_extend: "wfEntry h e \<Longrightarrow> entryOf (h @ new) e = entryOf h e"
  by (simp add: entryOf_def wfEntry_def children_extend)

lemma freshRefs_mono: "freshRefs n1 h rs \<Longrightarrow> n0 \<le> n1 \<Longrightarrow> freshRefs n0 h rs"
  by (auto simp: freshRefs_def list_all_iff)

lemma freshRefs_ge: "freshRefs n0 h rs \<Longrightarrow> r \<in> set rs \<Longrightarrow> n0 \<le> r"
  by (auto simp: freshRefs_def list_all_iff)

lemma map_resultOf_extend:
  "freshRefs n0 h (optList x) \<Longrightarrow>
   map_option (map (\<lambda>r. resultOf ((h @ new) ! r))) x = map_option (map (\<lambda>r. resultOf (h ! r))) x"
  by (cases x) (auto simp: freshRefs_def list_all_iff nth_append)

lemma absMatchResult_extend:
  assumes "freshRefs n0 h (refsM r)"
  shows "absMatchResult (h @ new) r = absMatchResult h r"
proof -
  from assms have "freshRefs n0 h (optList (ms_functions r))"
    "freshRefs n0 h (optList (ms_callbacks r))" "freshRefs n0 h (optList (ms_types r))"
    by (simp_all add: refsM_def freshRefs_append)
  then show ?thesis
    by (simp add: absMatchResult_def map_resultOf_extend)
qed

lemma freshRefs_concat_extend:
  "freshRefs n0 h (concat (map refsM rs)) \<Longrightarrow>
   map (absMatchResult (h @ new)) rs = map (absMatchResult h) rs"
proof (induction rs)
  case Nil
  then show ?case by simp
next
  case (Cons r rs)
  from Cons.prems have r: "freshRefs n0 h (refsM r)"
    and rs: "freshRefs n0 h (concat (map refsM rs))"
    by (simp_all add: freshRefs_append)
  from absMatchResult_extend[OF r] Cons.IH[OF rs] show ?case by simp
qed

lemma findInS_map_refines:
  assumes "list_all (wfEntry h) es"
  shows "\<exists>rs new. findInS_map lc (RegExp_i (escapeText t)) t h es = Inr (rs, h @ new)
          \<and> findIn_map lc (RegExp_i (escapeText t)) t (map (entryOf h) es)
              = Inr (map (absMatchResult (h @ new)) rs)
          \<and> freshRefs (length h) (h @ new) (concat (map refsM rs))"
  using assms
proof (induction es arbitrary: h)
  case Nil
  show ?case by (intro exI[of _ "[]"]) simp
next
  case (Cons e es)
  let ?M = "RegExp_i (escapeText t)"
  from Cons.prems have e: "wfEntry h e" and es: "list_all (wfEntry h) es" by simp_all
  from findInS_element_refines[OF e, of lc t] obtain ro new1 where
    s1: "findInS_element lc ?M t h e = Inr (ro, h @ new1)"
    and p1: "findIn_element lc ?M t (entryOf h e) = Inr (map_option (absMatchResult (h @ new1)) ro)"
    and f1: "freshRefs (length h) (h @ new1) (case ro of None \<Rightarrow> [] | Some r \<Rightarrow> refsM r)"
    by blast
  have es1: "list_all (wfEntry (h @ new1)) es"
    using es by (auto simp: list_all_iff wfEntry_extend)
  from Cons.IH[OF es1] obtain rs new2 where
    s2: "findInS_map lc ?M t (h @ new1) es = Inr (rs, (h @ new1) @ new2)"
    and p2: "findIn_map lc ?M t (map (entryOf (h @ new1)) es)
              = Inr (map (absMatchResult ((h @ new1) @ new2)) rs)"
    and f2: "freshRefs (length (h @ new1)) ((h @ new1) @ new2) (concat (map refsM rs))"
    by blast
  have ents: "map (entryOf (h @ new1)) es = map (entryOf h) es"
    using es by (auto simp: list_all_iff entryOf_extend)
  have f2': "freshRefs (length h) (h @ new1 @ new2) (concat (map refsM rs))"
    using freshRefs_mono[OF f2, of "length h"] by simp
  show ?case
  proof (cases ro)
    case None
    show ?thesis
    proof (intro exI[of _ rs] exI[of _ "new1 @ new2"] conjI)
      show "findInS_map lc ?M t h (e # es) = Inr (rs, h @ new1 @ new2)"
        using s1 s2 None by simp
      show "findIn_map lc ?M t (map (entryOf h) (e # es))
              = Inr (map (absMatchResult (h @ new1 @ new2)) rs)"
        using p1 p2 None unfolding ents by simp
      show "freshRefs (length h) (h @ new1 @ new2) (concat (map refsM rs))"
        by (rule f2')
    qed
  next
    case (Some r)
    from f1 Some have fr: "freshRefs (length h) (h @ new1) (refsM r)" by simp
    then have fr': "freshRefs (length h) (h @ new1 @ new2) (refsM r)"
      using freshRefs_extend[of "length h" "h @ new1" "refsM r" new2] by simp
    have ar: "absMatchResult (h @ new1 @ new2) r = absMatchResult (h @ new1) r"
      using absMatchResult_extend[OF fr, of new2] by simp
    have disj: "set (refsM r) \<inter> set (concat (map refsM rs)) = {}"
    proof -
      have "x < length (h @ new1)" if "x \<in> set (refsM r)" for x
        using freshRefs_less[OF fr that] .
      moreover have "length (h @ new1) \<le> x" if "x \<in> set (concat (map refsM rs))" for x
        using freshRefs_ge[OF f2 that] .
      ultimately show ?thesis by fastforce
    qed
    show ?thesis
    proof (intro exI[of _ "r # rs"] exI[of _ "new1 @ new2"] conjI)
      show "findInS_map lc ?M t h (e # es) = Inr (r # rs, h @ new1 @ new2)"
        using s1 s2 Some by simp
      show "findIn_map lc ?M t (map (entryOf h) (e # es))
              = Inr (map (absMatchResult (h @ new1 @ new2)) (r # rs))"
        using p1 p2 Some unfolding ents by (simp add: ar)
      show "freshRefs (length h) (h @ new1 @ new2) (concat (map refsM (r # rs)))"
        using fr' f2' disj by (simp add: freshRefs_append)
    qed
  qed
qed

lemma findInS_refines:
  assumes "list_all (wfEntry h) es"
  shows "\<exists>rs new. findInS lc es t h = Inr (rs, h @ new)
          \<and> findIn lc (map (entryOf h) es) t = Inr (map (absMatchResult (h @ new)) rs)
          \<and> freshRefs (length h) (h @ new) (concat (map refsM rs))"
  unfolding findInS_def findIn_def using assms by (rule findInS_map_refines)

subsection \<open>The store: labels and flattening\<close>

lemma length_setLabel [simp]: "length (setLabel h r l) = length h"
  by (simp add: setLabel_def)

lemma length_addLabelS [simp]: "length (addLabelS h rs l) = length h"
  unfolding addLabelS_def by (induction rs arbitrary: h) simp_all

lemma nth_setLabel:
  "i < length h \<Longrightarrow> setLabel h r l ! i = (if i = r then (h ! i)\<lparr>o_label := Some l\<rparr> else h ! i)"
  by (simp add: setLabel_def nth_list_update)

lemma nth_addLabelS:
  "i < length h \<Longrightarrow>
   addLabelS h rs l ! i = (if i \<in> set rs then (h ! i)\<lparr>o_label := Some l\<rparr> else h ! i)"
  unfolding addLabelS_def
proof (induction rs arbitrary: h)
  case Nil
  then show ?case by simp
next
  case (Cons r rs)
  from Cons.prems have "i < length (setLabel h r l)" by simp
  from Cons.IH[OF this] Cons.prems show ?case
    by (simp add: nth_setLabel)
qed

lemma isMatchS_child:
  "o_match c \<noteq> None \<Longrightarrow> isMatchS (ChildItemS c) = isMatch (ChildItem (resultOf c))"
  by (auto simp: isMatchS_def isMatch_def resultOf_def)

lemma serializeS_child:
  "o_match c \<noteq> None \<Longrightarrow>
   serializeS (ChildItemS c) m True = serialize (ChildItem (resultOf c)) m True"
  by (auto simp: serializeS_def serialize_def resultOf_def Let_def)

lemma isMatchS_entry: "isMatchS (EntryItemS r) = isMatch (EntryItem (absTagged h r))"
  by (simp add: isMatchS_def isMatch_def absTagged_def)

lemma serializeS_entry:
  "serializeS (EntryItemS r) m False = serialize (EntryItem (absTagged h r)) m False"
  by (simp add: serializeS_def serialize_def absTagged_def Let_def)

lemma child_items:
  "list_all (\<lambda>r. o_match (h ! r) \<noteq> None) refs \<Longrightarrow>
   map (\<lambda>item. serializeS item m True) (filter isMatchS (map (\<lambda>r. ChildItemS (h ! r)) refs))
     = map (\<lambda>item. serialize item m True)
         (filter isMatch (map ChildItem (map (\<lambda>r. resultOf (h ! r)) refs)))"
  by (induction refs) (simp_all add: isMatchS_child serializeS_child)

lemma resultOf_label: "resultOf (c\<lparr>o_label := Some l\<rparr>) = (resultOf c)\<lparr>label := Some l\<rparr>"
  by (simp add: resultOf_def)

lemma parseModuleResultsS_refines:
  assumes fr: "freshRefs n0 h (refsM r)"
  shows "\<exists>h'. parseModuleResultsS h r = (parseModuleResults (absTagged h r), h')
           \<and> length h' = length h
           \<and> (\<forall>i<length h. i \<notin> set (refsM r) \<longrightarrow> h' ! i = h ! i)
           \<and> (\<forall>i<length h. o_match (h' ! i) = o_match (h ! i))"
proof -
  define F where "F = optList (ms_functions r)"
  define C where "C = optList (ms_callbacks r)"
  define T where "T = optList (ms_types r)"
  define h1 where "h1 = addLabelS h T ''type''"
  define h2 where "h2 = addLabelS h1 C ''callback''"
  have refs: "refsM r = F @ C @ T" by (simp add: refsM_def F_def C_def T_def)
  from fr have valid: "\<forall>x\<in>set (F @ C @ T). x < length h \<and> o_match (h ! x) \<noteq> None"
    and FC: "set F \<inter> set C = {}" and FT: "set F \<inter> set T = {}" and CT: "set C \<inter> set T = {}"
    unfolding refs by (auto simp: freshRefs_def list_all_iff)
  have n2: "h2 ! i = (if i \<in> set C then (h ! i)\<lparr>o_label := Some ''callback''\<rparr>
                     else if i \<in> set T then (h ! i)\<lparr>o_label := Some ''type''\<rparr> else h ! i)"
    if "i < length h" for i
    using that CT by (auto simp: h2_def h1_def nth_addLabelS)
  have len: "length h2 = length h" by (simp add: h2_def h1_def)
  have mF: "map (\<lambda>x. resultOf (h2 ! x)) F = map (\<lambda>x. resultOf (h ! x)) F"
    using valid FC FT by (auto simp: n2)
  have mC: "map (\<lambda>x. resultOf (h2 ! x)) C = addLabel (map (\<lambda>x. resultOf (h ! x)) C) ''callback''"
    using valid by (auto simp: n2 addLabel_def resultOf_label)
  have mT: "map (\<lambda>x. resultOf (h2 ! x)) T = addLabel (map (\<lambda>x. resultOf (h ! x)) T) ''type''"
    using valid CT by (auto simp: n2 addLabel_def resultOf_label)
  have ms: "list_all (\<lambda>x. o_match (h2 ! x) \<noteq> None) (F @ C @ T)"
    using valid by (auto simp: list_all_iff n2)
  have items: "map (\<lambda>item. serializeS item (ridS r) True)
                 (filter isMatchS (map (\<lambda>x. ChildItemS (h2 ! x)) (F @ C @ T)))
      = map (\<lambda>item. serialize item (ridS r) True)
          (filter isMatch (map ChildItem
             (map (\<lambda>x. resultOf (h ! x)) F
              @ addLabel (map (\<lambda>x. resultOf (h ! x)) C) ''callback''
              @ addLabel (map (\<lambda>x. resultOf (h ! x)) T) ''type'')))"
  proof -
    have "map (\<lambda>x. resultOf (h2 ! x)) (F @ C @ T)
            = map (\<lambda>x. resultOf (h ! x)) F
              @ addLabel (map (\<lambda>x. resultOf (h ! x)) C) ''callback''
              @ addLabel (map (\<lambda>x. resultOf (h ! x)) T) ''type''"
      by (simp only: map_append mF mC mT)
    with child_items[OF ms, of "ridS r"] show ?thesis by (simp only:)
  qed
  have opt: "(case map_option (map f) x of None \<Rightarrow> [] | Some xs \<Rightarrow> xs) = map f (optList x)"
    for f :: "nat \<Rightarrow> ChildResult" and x
    by (cases x) simp_all
  have pure: "parseModuleResults (absTagged h r) =
      (let results = map (\<lambda>item. serialize item (ridS r) True)
          (filter isMatch (map ChildItem
             (map (\<lambda>x. resultOf (h ! x)) F
              @ addLabel (map (\<lambda>x. resultOf (h ! x)) C) ''callback''
              @ addLabel (map (\<lambda>x. resultOf (h ! x)) T) ''type'')))
       in if isMatch (EntryItem (absTagged h r))
          then serialize (EntryItem (absTagged h r)) (ridS r) False # results else results)"
  proof -
    have a: "m_functions (absTagged h r) = map_option (map (\<lambda>x. resultOf (h ! x))) (ms_functions r)"
      "m_callbacks (absTagged h r) = map_option (map (\<lambda>x. resultOf (h ! x))) (ms_callbacks r)"
      "m_types (absTagged h r) = map_option (map (\<lambda>x. resultOf (h ! x))) (ms_types r)"
      "rid (absTagged h r) = ridS r"
      by (simp_all add: absTagged_def)
    show ?thesis
      unfolding parseModuleResults_def Let_def a opt F_def C_def T_def by (rule refl)
  qed
  have store: "parseModuleResultsS h r =
      (let results = map (\<lambda>item. serializeS item (ridS r) True)
                 (filter isMatchS (map (\<lambda>x. ChildItemS (h2 ! x)) (F @ C @ T)))
       in if isMatchS (EntryItemS r)
          then (serializeS (EntryItemS r) (ridS r) False # results, h2) else (results, h2))"
    unfolding parseModuleResultsS_def Let_def h2_def h1_def F_def C_def T_def optList_def
    by (rule refl)
  have eq: "parseModuleResultsS h r = (parseModuleResults (absTagged h r), h2)"
    unfolding store pure Let_def items isMatchS_entry[of r h] serializeS_entry[of r _ h]
    by simp
  have frame: "\<forall>i<length h. i \<notin> set (refsM r) \<longrightarrow> h2 ! i = h ! i"
    unfolding refs by (auto simp: n2)
  have om: "\<forall>i<length h. o_match (h2 ! i) = o_match (h ! i)"
    by (auto simp: n2)
  from eq len frame om show ?thesis by blast
qed

lemma absTagged_frame:
  assumes "\<forall>x\<in>set (refsM r). h' ! x = h ! x"
  shows "absTagged h' r = absTagged h r"
proof -
  have "map_option (map (\<lambda>x. resultOf (h' ! x))) y = map_option (map (\<lambda>x. resultOf (h ! x))) y"
    if "set (optList y) \<subseteq> set (refsM r)" for y
    using that assms by (cases y) auto
  note eq = this
  have "map_option (map (\<lambda>x. resultOf (h' ! x))) (ms_functions r)
          = map_option (map (\<lambda>x. resultOf (h ! x))) (ms_functions r)"
    "map_option (map (\<lambda>x. resultOf (h' ! x))) (ms_callbacks r)
          = map_option (map (\<lambda>x. resultOf (h ! x))) (ms_callbacks r)"
    "map_option (map (\<lambda>x. resultOf (h' ! x))) (ms_types r)
          = map_option (map (\<lambda>x. resultOf (h ! x))) (ms_types r)"
    by (rule eq, auto simp: refsM_def)+
  then show ?thesis
    by (simp add: absTagged_def)
qed

lemma freshRefs_frame:
  assumes "freshRefs n0 h rs" and "length h' = length h"
    and "\<forall>i<length h. o_match (h' ! i) = o_match (h ! i)"
  shows "freshRefs n0 h' rs"
  using assms by (auto simp: freshRefs_def list_all_iff)

lemma parseAllS_refines:
  assumes "freshRefs n0 h (concat (map refsM rs))"
  shows "\<exists>h'. parseAllS acc h rs
                 = (acc @ concat (map (\<lambda>r. parseModuleResults (absTagged h r)) rs), h')
           \<and> length h' = length h
           \<and> (\<forall>i<length h. i < n0 \<longrightarrow> h' ! i = h ! i)"
  using assms
proof (induction rs arbitrary: acc h)
  case Nil
  then show ?case by simp
next
  case (Cons r rs)
  from Cons.prems have fr: "freshRefs n0 h (refsM r)"
    and frs: "freshRefs n0 h (concat (map refsM rs))"
    and disj: "set (refsM r) \<inter> set (concat (map refsM rs)) = {}"
    by (simp_all add: freshRefs_append)
  from parseModuleResultsS_refines[OF fr] obtain h1 where
    p1: "parseModuleResultsS h r = (parseModuleResults (absTagged h r), h1)"
    and l1: "length h1 = length h"
    and fr1: "\<forall>i<length h. i \<notin> set (refsM r) \<longrightarrow> h1 ! i = h ! i"
    and om1: "\<forall>i<length h. o_match (h1 ! i) = o_match (h ! i)"
    by blast
  have frs1: "freshRefs n0 h1 (concat (map refsM rs))"
    using frs l1 om1 by (rule freshRefs_frame)
  from Cons.IH[OF frs1, of "acc @ parseModuleResults (absTagged h r)"] obtain h' where
    p2: "parseAllS (acc @ parseModuleResults (absTagged h r)) h1 rs
           = ((acc @ parseModuleResults (absTagged h r))
              @ concat (map (\<lambda>r. parseModuleResults (absTagged h1 r)) rs), h')"
    and l2: "length h' = length h1"
    and fr2: "\<forall>i<length h1. i < n0 \<longrightarrow> h' ! i = h1 ! i"
    by blast
  have same: "absTagged h1 x = absTagged h x" if "x \<in> set rs" for x
  proof (rule absTagged_frame, rule ballI)
    fix i assume i: "i \<in> set (refsM x)"
    with that have c: "i \<in> set (concat (map refsM rs))" by auto
    with disj have "i \<notin> set (refsM r)" by blast
    moreover have "i < length h" using freshRefs_less[OF frs c] .
    ultimately show "h1 ! i = h ! i" using fr1 by simp
  qed
  then have maps: "map (\<lambda>r. parseModuleResults (absTagged h1 r)) rs
                 = map (\<lambda>r. parseModuleResults (absTagged h r)) rs"
    by simp
  have low: "h' ! i = h ! i" if "i < length h" "i < n0" for i
  proof -
    have "i \<notin> set (refsM r)" using freshRefs_ge[OF fr, of i] that(2) by auto
    with fr1 that(1) have "h1 ! i = h ! i" by simp
    moreover have "h' ! i = h1 ! i" using fr2 that l1 by simp
    ultimately show ?thesis by simp
  qed
  show ?case
  proof (intro exI[of _ h'] conjI allI impI)
    show "parseAllS acc h (r # rs)
            = (acc @ concat (map (\<lambda>r. parseModuleResults (absTagged h r)) (r # rs)), h')"
      using p1 p2 unfolding maps by simp
    show "length h' = length h" using l1 l2 by simp
    show "h' ! i = h ! i" if "i < length h" "i < n0" for i
      using that by (rule low)
  qed
qed

lemma refsM_tagged [simp]:
  "refsM (MatchResultS.extend m (TaggedResultS.fields c)) = refsM m"
  by (simp add: refsM_def MatchResultS.defs TaggedResultS.defs)

lemma absTagged_tagged:
  "absTagged h (MatchResultS.extend m (TaggedResultS.fields c))
     = MatchResult.extend (absMatchResult h m) (TaggedResult.fields c)"
  by (simp add: absTagged_def absMatchResult_def MatchResultS.defs TaggedResultS.defs
        MatchResult.defs TaggedResult.defs)

lemma concat_refsM_addCategoryS [simp]:
  "concat (map refsM (addCategoryS ms c)) = concat (map refsM ms)"
  by (induction ms) (simp_all add: addCategoryS_def)

lemma absTagged_addCategoryS:
  "map (absTagged h) (addCategoryS ms c) = addCategory (map (absMatchResult h) ms) c"
  by (simp add: addCategoryS_def addCategory_def absTagged_tagged)

lemma foldl_concat:
  "foldl (\<lambda>acc m. acc @ f m) a xs = a @ concat (map f xs)"
  by (induction xs arbitrary: a) simp_all

subsection \<open>The store: \<^verbatim>\<open>getSuggestions\<close>\<close>

lemma wfEntries_extend: "list_all (wfEntry h) es \<Longrightarrow> list_all (wfEntry (h @ new)) es"
  by (auto simp: list_all_iff wfEntry_extend)

lemma entriesOf_extend:
  "list_all (wfEntry h) es \<Longrightarrow> map (entryOf (h @ new)) es = map (entryOf h) es"
  by (auto simp: list_all_iff entryOf_extend)

lemma flatResultsS_refines:
  assumes "wfIndex h nodes"
  shows "\<exists>flat h'. flatResultsS lc nodes t h = Inr (flat, h')
           \<and> flatResults lc (indexOf_store h nodes) t = Inr flat
           \<and> take (length h) h' = h"
proof -
  from assms have wm: "list_all (wfEntry h) (modulesS nodes)"
    and we: "list_all (wfEntry h) (exceptionsS nodes)"
    and wt: "list_all (wfEntry h) (tasksS nodes)"
    by (simp_all add: wfIndex_def)
  from findInS_refines[OF wm, of lc t] obtain ms n1 where
    sm: "findInS lc (modulesS nodes) t h = Inr (ms, h @ n1)"
    and pm: "findIn lc (map (entryOf h) (modulesS nodes)) t = Inr (map (absMatchResult (h @ n1)) ms)"
    and fm: "freshRefs (length h) (h @ n1) (concat (map refsM ms))"
    by blast
  from findInS_refines[OF wfEntries_extend[OF we, of n1], of lc t] obtain es n2 where
    se: "findInS lc (exceptionsS nodes) t (h @ n1) = Inr (es, (h @ n1) @ n2)"
    and pe: "findIn lc (map (entryOf (h @ n1)) (exceptionsS nodes)) t
               = Inr (map (absMatchResult ((h @ n1) @ n2)) es)"
    and fe: "freshRefs (length (h @ n1)) ((h @ n1) @ n2) (concat (map refsM es))"
    by blast
  from findInS_refines[OF wfEntries_extend[OF wt, of "n1 @ n2"], of lc t] obtain ts n3 where
    st: "findInS lc (tasksS nodes) t (h @ n1 @ n2) = Inr (ts, (h @ n1 @ n2) @ n3)"
    and pt: "findIn lc (map (entryOf (h @ n1 @ n2)) (tasksS nodes)) t
               = Inr (map (absMatchResult ((h @ n1 @ n2) @ n3)) ts)"
    and ft: "freshRefs (length (h @ n1 @ n2)) ((h @ n1 @ n2) @ n3) (concat (map refsM ts))"
    by blast
  define h3 where "h3 = h @ n1 @ n2 @ n3"
  let ?all = "addCategoryS ms Module @ addCategoryS es Exception @ addCategoryS ts MixTask"
  have am: "map (absMatchResult h3) ms = map (absMatchResult (h @ n1)) ms"
    using freshRefs_concat_extend[OF fm, of "n2 @ n3"] by (simp add: h3_def)
  have ae: "map (absMatchResult h3) es = map (absMatchResult ((h @ n1) @ n2)) es"
    using freshRefs_concat_extend[OF fe, of n3] by (simp add: h3_def)
  have at: "map (absMatchResult h3) ts = map (absMatchResult ((h @ n1 @ n2) @ n3)) ts"
    by (simp add: h3_def)
  have fm3: "freshRefs (length h) h3 (concat (map refsM ms))"
    using freshRefs_extend[OF fm, of "n2 @ n3"] by (simp add: h3_def)
  have fe3: "freshRefs (length h) h3 (concat (map refsM es))"
    using freshRefs_mono[OF freshRefs_extend[OF fe, of n3], of "length h"] by (simp add: h3_def)
  have ft3: "freshRefs (length h) h3 (concat (map refsM ts))"
    using freshRefs_mono[OF ft, of "length h"] by (simp add: h3_def)
  have d1: "set (concat (map refsM ms)) \<inter> set (concat (map refsM es)) = {}"
  proof -
    have "x < length (h @ n1)" if "x \<in> set (concat (map refsM ms))" for x
      using freshRefs_less[OF fm that] .
    moreover have "length (h @ n1) \<le> x" if "x \<in> set (concat (map refsM es))" for x
      using freshRefs_ge[OF fe that] .
    ultimately show ?thesis by fastforce
  qed
  have d2: "set (concat (map refsM ms)) \<inter> set (concat (map refsM ts)) = {}"
  proof -
    have "x < length (h @ n1)" if "x \<in> set (concat (map refsM ms))" for x
      using freshRefs_less[OF fm that] .
    moreover have "length (h @ n1 @ n2) \<le> x" if "x \<in> set (concat (map refsM ts))" for x
      using freshRefs_ge[OF ft that] .
    ultimately show ?thesis by fastforce
  qed
  have d3: "set (concat (map refsM es)) \<inter> set (concat (map refsM ts)) = {}"
  proof -
    have "x < length ((h @ n1) @ n2)" if "x \<in> set (concat (map refsM es))" for x
      using freshRefs_less[OF fe that] .
    moreover have "length (h @ n1 @ n2) \<le> x" if "x \<in> set (concat (map refsM ts))" for x
      using freshRefs_ge[OF ft that] .
    ultimately show ?thesis by fastforce
  qed
  have fall: "freshRefs (length h) h3 (concat (map refsM ?all))"
    using fm3 fe3 ft3 d1 d2 d3 by (simp add: freshRefs_append Int_Un_distrib)
  from parseAllS_refines[OF fall, of "[]"] obtain h4 where
    pa: "parseAllS [] h3 ?all = (concat (map (\<lambda>r. parseModuleResults (absTagged h3 r)) ?all), h4)"
    and l4: "length h4 = length h3"
    and f4: "\<forall>i<length h3. i < length h \<longrightarrow> h4 ! i = h3 ! i"
    by auto
  have tagged: "map (\<lambda>r. parseModuleResults (absTagged h3 r)) ?all
      = map parseModuleResults
          (addCategory (map (absMatchResult h3) ms) Module
           @ addCategory (map (absMatchResult h3) es) Exception
           @ addCategory (map (absMatchResult h3) ts) MixTask)"
  proof -
    have "map (\<lambda>r. parseModuleResults (absTagged h3 r)) xs
            = map parseModuleResults (map (absTagged h3) xs)" for xs
      by simp
    then show ?thesis
      by (simp only: map_append absTagged_addCategoryS)
  qed
  have pure: "flatResults lc (indexOf_store h nodes) t
      = Inr (concat (map (\<lambda>r. parseModuleResults (absTagged h3 r)) ?all))"
  proof -
    have m: "findIn lc (modules (indexOf_store h nodes)) t = Inr (map (absMatchResult h3) ms)"
      using pm by (simp add: indexOf_store_def am)
    have e: "findIn lc (exceptions (indexOf_store h nodes)) t = Inr (map (absMatchResult h3) es)"
      using pe by (simp add: indexOf_store_def ae entriesOf_extend[OF we])
    have t: "findIn lc (tasks (indexOf_store h nodes)) t = Inr (map (absMatchResult h3) ts)"
      using pt by (simp add: indexOf_store_def at entriesOf_extend[OF wt])
    show ?thesis
      unfolding flatResults_def m e t tagged by (simp add: foldl_concat)
  qed
  have store: "flatResultsS lc nodes t h
      = Inr (concat (map (\<lambda>r. parseModuleResults (absTagged h3 r)) ?all), h4)"
    using sm se st pa by (simp add: flatResultsS_def h3_def)
  have "take (length h) h4 = h"
  proof (rule nth_equalityI)
    show "length (take (length h) h4) = length h" using l4 by (simp add: h3_def)
    fix i assume "i < length (take (length h) h4)"
    then have i: "i < length h" by simp
    then have "h4 ! i = h3 ! i" using f4 by (simp add: h3_def)
    also have "\<dots> = h ! i" using i by (simp add: h3_def nth_append)
    finally show "take (length h) h4 ! i = h ! i" using i by simp
  qed
  with store pure show ?thesis by blast
qed

lemma getSuggestionsS_refines:
  assumes "wfIndex h nodes"
  shows "\<exists>out h'. getSuggestionsS lc nodes t h = Inr (out, h')
           \<and> getSuggestions lc (indexOf_store h nodes) t = Inr out
           \<and> take (length h) h' = h"
proof (cases "length (trim t) = 0")
  case True
  then show ?thesis by (simp add: getSuggestionsS_def getSuggestions_def)
next
  case False
  from flatResultsS_refines[OF assms, of lc t] obtain flat h' where
    "flatResultsS lc nodes t h = Inr (flat, h')"
    "flatResults lc (indexOf_store h nodes) t = Inr flat" "take (length h) h' = h"
    by blast
  with False show ?thesis by (simp add: getSuggestionsS_def getSuggestions_def)
qed

lemma index_unchanged:
  assumes "wfIndex h nodes" and "take (length h) h' = h"
  shows "wfIndex h' nodes \<and> indexOf_store h' nodes = indexOf_store h nodes"
proof -
  from assms(2) have h': "h' = h @ drop (length h) h'"
    by (metis append_take_drop_id)
  from assms(1) have wm: "list_all (wfEntry h) (modulesS nodes)"
    and we: "list_all (wfEntry h) (exceptionsS nodes)"
    and wt: "list_all (wfEntry h) (tasksS nodes)"
    by (simp_all add: wfIndex_def)
  have "wfIndex (h @ drop (length h) h') nodes"
    using wm we wt by (simp add: wfIndex_def wfEntries_extend)
  moreover have "indexOf_store (h @ drop (length h) h') nodes = indexOf_store h nodes"
    using wm we wt by (simp add: indexOf_store_def entriesOf_extend)
  ultimately show ?thesis using h' by simp
qed

section \<open>The claims\<close>

text \<open>
  C1, the nested matching rule. As claimed, the composite key is made of the id of the
  parent. \<^verbatim>\<open>findIn\<close> passes the title of the parent to \<^verbatim>\<open>findNested\<close>, not its id.
  For the task with id \<open>Mix.Tasks.Docs\<close> and title \<open>mix docs\<close>, the term
  \<open>Tasks.Docs.run\<close> occurs in the composite \<open>Mix.Tasks.Docs.run/1\<close> of the id, not in
  \<open>Mix.Tasks.Docs.\<close> and not in \<open>run/1\<close>; the child is not highlighted, and no
  suggestion is made for it. Nor does the rule reach every child: the reduction skips a
  child whose id the accumulator already answers to, as it does for an id collected
  before and for the name of a property every object inherits, such as \<open>toString\<close>.
\<close>

theorem nested_rule_counterexample:
  "str_match ''run/1'' (RegExp_i (escapeText ''Tasks.Docs.run'')) = None
   \<and> str_match (''Mix.Tasks.Docs'' @ ''.'') (RegExp_i (escapeText ''Tasks.Docs.run'')) = None
   \<and> str_match (''Mix.Tasks.Docs'' @ ''.'' @ ''run/1'') (RegExp_i (escapeText ''Tasks.Docs.run''))
       = Some \<lparr>m0 = ''Tasks.Docs.run'', index = 4, input = ''Mix.Tasks.Docs.run/1''\<rparr>
   \<and> findIn compareCodes (tasks taskIndex) ''Tasks.Docs.run''
       = Inr [\<lparr>rid = ''Mix.Tasks.Docs'', rmatch = Some ''mix docs'',
               m_functions = Some [\<lparr>cid = ''run/1'', anchor = Some ''run/1'', label = None,
                                    cmatch = ''run/1''\<rparr>],
               m_callbacks = None, m_types = None\<rparr>]
   \<and> getSuggestions compareCodes taskIndex ''Tasks.Docs.run''
       = Inr [\<lparr>link = ''Mix.Tasks.Docs.html'', s_title = Some ''mix docs'', description = None,
               s_label = None, s_category = Some MixTask\<rparr>]
   \<and> str_match ''toString'' (RegExp_i (escapeText ''o.toS'')) = None
   \<and> str_match (''Foo'' @ ''.'') (RegExp_i (escapeText ''o.toS'')) = None
   \<and> str_match (''Foo'' @ ''.'' @ ''toString'') (RegExp_i (escapeText ''o.toS''))
       = Some \<lparr>m0 = ''o.toS'', index = 2, input = ''Foo.toString''\<rparr>
   \<and> findNested [\<lparr>cid = ''toString'', anchor = None, label = None\<rparr>] ''Foo''
         (RegExp_i (escapeText ''o.toS'')) ''o.toS'' None = Inr []"
  by code_simp

text \<open>
  C1 as amended. Let \<open>p\<close> be the title of the parent, as \<^verbatim>\<open>findNested\<close> receives it,
  and \<open>c\<close> the id of a child of the node group (ids distinct, \<open>c\<close> not yet in the
  accumulator). If \<open>c\<close> does not match the term, \<open>p.\<close> does not match it and \<open>p.c\<close>
  does, then \<open>c\<close> matches the matcher built from the last dot-separated segment of the
  term, and the accumulator holds for \<open>c\<close> the copy of the child with that match
  highlighted. In particular, for a module with id and title \<open>Foo\<close> and a function
  \<open>bar\<close>, the terms \<open>Foo.bar\<close> and \<open>bar\<close> both give the Child suggestion of \<open>bar\<close>
  with the description \<open>Foo\<close>.
\<close>

theorem nested_rule:
  assumes "element \<in> set elements" and "distinct (map cid elements)"
    and "\<not> truthyAt (case acc of None \<Rightarrow> [] | Some a \<Rightarrow> a) (cid element)"
    and "str_match (cid element) (RegExp_i (escapeText t)) = None"
    and "str_match (p @ ''.'') (RegExp_i (escapeText t)) = None"
    and "str_match (p @ ''.'' @ cid element) (RegExp_i (escapeText t)) \<noteq> None"
  shows "(\<exists>obj m. findNested elements p (RegExp_i (escapeText t)) t acc = Inr obj
           \<and> str_match (cid element) (RegExp_i (escapeText (last (split (CHR ''.'') t)))) = Some m
           \<and> map_of obj (cid element)
               = Some (ChildEntry.extend element (ChildResult.fields (highlight m))))
         \<and> getSuggestions lc
               \<lparr>modules = [\<lparr>eid = ''Foo'', title = Some ''Foo'',
                   nodeGroups = [(''functions'', [\<lparr>cid = ''bar'', anchor = a, label = l\<rparr>])]\<rparr>],
                exceptions = [], tasks = []\<rparr> ''Foo.bar''
             = Inr [\<lparr>link = (if truthy a then ''Foo.html#'' @ the a else ''Foo.html''),
                     s_title = Some ''<em>bar</em>'', description = Some ''Foo'',
                     s_label = (if truthy l then l else None), s_category = Some Child\<rparr>]
         \<and> getSuggestions lc
               \<lparr>modules = [\<lparr>eid = ''Foo'', title = Some ''Foo'',
                   nodeGroups = [(''functions'', [\<lparr>cid = ''bar'', anchor = a, label = l\<rparr>])]\<rparr>],
                exceptions = [], tasks = []\<rparr> ''bar''
             = Inr [\<lparr>link = (if truthy a then ''Foo.html#'' @ the a else ''Foo.html''),
                     s_title = Some ''<em>bar</em>'', description = Some ''Foo'',
                     s_label = (if truthy l then l else None), s_category = Some Child\<rparr>]"
proof (intro conjI)
  show "getSuggestions lc
               \<lparr>modules = [\<lparr>eid = ''Foo'', title = Some ''Foo'',
                   nodeGroups = [(''functions'', [\<lparr>cid = ''bar'', anchor = a, label = l\<rparr>])]\<rparr>],
                exceptions = [], tasks = []\<rparr> ''Foo.bar''
             = Inr [\<lparr>link = (if truthy a then ''Foo.html#'' @ the a else ''Foo.html''),
                     s_title = Some ''<em>bar</em>'', description = Some ''Foo'',
                     s_label = (if truthy l then l else None), s_category = Some Child\<rparr>]"
    by code_simp simp
  show "getSuggestions lc
               \<lparr>modules = [\<lparr>eid = ''Foo'', title = Some ''Foo'',
                   nodeGroups = [(''functions'', [\<lparr>cid = ''bar'', anchor = a, label = l\<rparr>])]\<rparr>],
                exceptions = [], tasks = []\<rparr> ''bar''
             = Inr [\<lparr>link = (if truthy a then ''Foo.html#'' @ the a else ''Foo.html''),
                     s_title = Some ''<em>bar</em>'', description = Some ''Foo'',
                     s_label = (if truthy l then l else None), s_category = Some Child\<rparr>]"
    by code_simp simp
next
  have n: "(if cid element = [] then None else str_match (cid element) (RegExp_i (escapeText t))) = None"
    using assms(4) by simp
  from qualified_reduced_match[OF n assms(5,6) refl] obtain m where
    m: "str_match (cid element) (RegExp_i (escapeText (last (split (CHR ''.'') t)))) = Some m"
    by blast
  have "childMatch p t (cid element) = highlight m"
    using n assms(5,6) m by (simp add: childMatch_def)
  then have "childResult p t element = ChildEntry.extend element (ChildResult.fields (highlight m))"
    by (simp add: childResult_def)
  with collect_new[OF assms(1,2,3), of "childResult p t"] m
  show "\<exists>obj m. findNested elements p (RegExp_i (escapeText t)) t acc = Inr obj
           \<and> str_match (cid element) (RegExp_i (escapeText (last (split (CHR ''.'') t)))) = Some m
           \<and> map_of obj (cid element)
               = Some (ChildEntry.extend element (ChildResult.fields (highlight m)))"
    by (simp add: findNested_collect)
qed

theorem nested_rule_witness:
  "(\<exists>obj m. findNested [\<lparr>cid = ''bar'', anchor = Some ''bar/0'', label = None\<rparr>] ''Foo''
               (RegExp_i (escapeText ''Foo.bar'')) ''Foo.bar'' None = Inr obj
           \<and> str_match ''bar'' (RegExp_i (escapeText (last (split (CHR ''.'') ''Foo.bar'')))) = Some m
           \<and> map_of obj ''bar''
               = Some \<lparr>cid = ''bar'', anchor = Some ''bar/0'', label = None, cmatch = highlight m\<rparr>)"
proof -
  let ?bar = "\<lparr>cid = ''bar'', anchor = Some ''bar/0'', label = None\<rparr>"
  have h1: "?bar \<in> set [?bar]" by simp
  have h2: "distinct (map cid [?bar])" by simp
  have h3: "\<not> truthyAt (case None of None \<Rightarrow> [] | Some a \<Rightarrow> a) (cid ?bar)"
    by code_simp
  have h4: "str_match (cid ?bar) (RegExp_i (escapeText ''Foo.bar'')) = None"
    by code_simp
  have h5: "str_match (''Foo'' @ ''.'') (RegExp_i (escapeText ''Foo.bar'')) = None"
    by code_simp
  have h6: "str_match (''Foo'' @ ''.'' @ cid ?bar) (RegExp_i (escapeText ''Foo.bar'')) \<noteq> None"
    by code_simp
  from nested_rule[OF h1 h2 h3 h4 h5 h6] show ?thesis
    by (simp add: ChildEntry.defs ChildResult.defs)
qed

text \<open>
  C2, the global ranking. The suggestions enter the sort in the order modules,
  exceptions, tasks, each entry before its children. What \<^verbatim>\<open>getSuggestions\<close> returns
  is sorted by descending priority, with Module above Child above Exception above Mix
  Task, and the sort is stable: the suggestions of one priority keep the order in which
  they entered, in the sorted sequence and in the returned first 5 of it.
\<close>

theorem global_ranking:
  "\<exists>out. getSuggestions lc nodes t = Inr out
     \<and> sorted_wrt (\<lambda>a b. weight (s_category b) \<le> weight (s_category a)) out
     \<and> weight (Some MixTask) < weight (Some Exception)
     \<and> weight (Some Exception) < weight (Some Child)
     \<and> weight (Some Child) < weight (Some Module)
     \<and> (if length (trim t) = 0 then out = []
         else \<exists>ms es ts flat.
           findIn lc (modules nodes) t = Inr ms \<and> findIn lc (exceptions nodes) t = Inr es
           \<and> findIn lc (tasks nodes) t = Inr ts
           \<and> flat = concat (map parseModuleResults
                       (addCategory ms Module @ addCategory es Exception @ addCategory ts MixTask))
           \<and> out = take 5 (array_sort compareItems flat)
           \<and> (\<forall>w. filter (\<lambda>i. weight (s_category i) = w) (array_sort compareItems flat)
                  = filter (\<lambda>i. weight (s_category i) = w) flat)
           \<and> (\<forall>w. \<exists>k. filter (\<lambda>i. weight (s_category i) = w) out
                  = take k (filter (\<lambda>i. weight (s_category i) = w) flat)))
     \<and> (\<forall>r. \<exists>children.
           parseModuleResults r
             = (if isMatch (EntryItem r) then [serialize (EntryItem r) (rid r) False] else [])
               @ children
           \<and> list_all (\<lambda>x. s_category x = Some Child) children)"
proof -
  have w: "weight (Some MixTask) < weight (Some Exception)"
    "weight (Some Exception) < weight (Some Child)"
    "weight (Some Child) < weight (Some Module)"
    by (simp_all add: weight_def)
  have parent_first: "\<exists>children.
           parseModuleResults r
             = (if isMatch (EntryItem r) then [serialize (EntryItem r) (rid r) False] else [])
               @ children
           \<and> list_all (\<lambda>x. s_category x = Some Child) children" for r
    by (auto simp: parseModuleResults_def Let_def list_all_iff serialize_def)
  show ?thesis
  proof (cases "length (trim t) = 0")
    case True
    then have "getSuggestions lc nodes t = Inr []" by (simp add: getSuggestions_def)
    with True w parent_first show ?thesis by simp
  next
    case False
    obtain ms where ms: "findIn lc (modules nodes) t = Inr ms" using findIn_total by blast
    obtain es where es: "findIn lc (exceptions nodes) t = Inr es" using findIn_total by blast
    obtain ts where ts: "findIn lc (tasks nodes) t = Inr ts" using findIn_total by blast
    define flat where "flat = concat (map parseModuleResults
                         (addCategory ms Module @ addCategory es Exception @ addCategory ts MixTask))"
    define out where "out = take 5 (array_sort compareItems flat)"
    have fr: "flatResults lc nodes t = Inr flat"
      by (simp add: flatResults_def ms es ts flat_def foldl_concat del: map_append)
    with False have g: "getSuggestions lc nodes t = Inr out"
      by (simp add: getSuggestions_def resultsCount_def out_def)
    have srt: "sorted_wrt (\<lambda>a b. weight (s_category b) \<le> weight (s_category a)) out"
      unfolding out_def by (rule sorted_wrt_take) (rule sorted_array_sort)
    have pre: "\<exists>k. filter (\<lambda>i. weight (s_category i) = w) out
                    = take k (filter (\<lambda>i. weight (s_category i) = w) flat)" for w
      unfolding out_def
      using filter_take_prefix[of "\<lambda>i. weight (s_category i) = w" 5 "array_sort compareItems flat"]
      by (simp add: stable_array_sort)
    have detail: "\<exists>ms es ts flat.
           findIn lc (modules nodes) t = Inr ms \<and> findIn lc (exceptions nodes) t = Inr es
           \<and> findIn lc (tasks nodes) t = Inr ts
           \<and> flat = concat (map parseModuleResults
                       (addCategory ms Module @ addCategory es Exception @ addCategory ts MixTask))
           \<and> out = take 5 (array_sort compareItems flat)
           \<and> (\<forall>w. filter (\<lambda>i. weight (s_category i) = w) (array_sort compareItems flat)
                  = filter (\<lambda>i. weight (s_category i) = w) flat)
           \<and> (\<forall>w. \<exists>k. filter (\<lambda>i. weight (s_category i) = w) out
                  = take k (filter (\<lambda>i. weight (s_category i) = w) flat))"
      using ms es ts flat_def out_def pre stable_array_sort by blast
    show ?thesis
    proof (intro exI[of _ out] conjI)
      show "getSuggestions lc nodes t = Inr out" by (rule g)
      show "sorted_wrt (\<lambda>a b. weight (s_category b) \<le> weight (s_category a)) out" by (rule srt)
      show "if length (trim t) = 0 then out = []
         else \<exists>ms es ts flat.
           findIn lc (modules nodes) t = Inr ms \<and> findIn lc (exceptions nodes) t = Inr es
           \<and> findIn lc (tasks nodes) t = Inr ts
           \<and> flat = concat (map parseModuleResults
                       (addCategory ms Module @ addCategory es Exception @ addCategory ts MixTask))
           \<and> out = take 5 (array_sort compareItems flat)
           \<and> (\<forall>w. filter (\<lambda>i. weight (s_category i) = w) (array_sort compareItems flat)
                  = filter (\<lambda>i. weight (s_category i) = w) flat)
           \<and> (\<forall>w. \<exists>k. filter (\<lambda>i. weight (s_category i) = w) out
                  = take k (filter (\<lambda>i. weight (s_category i) = w) flat))"
        using False detail by simp
      show "\<forall>r. \<exists>children.
           parseModuleResults r
             = (if isMatch (EntryItem r) then [serialize (EntryItem r) (rid r) False] else [])
               @ children
           \<and> list_all (\<lambda>x. s_category x = Some Child) children"
        using parent_first by blast
    qed (rule w)+
  qed
qed

theorem global_ranking_witness:
  "getSuggestions compareCodes mixedIndex ''foo'' =
     Inr [\<lparr>link = ''Foo.html'', s_title = Some ''<em>Foo</em>'', description = None,
           s_label = None, s_category = Some Module\<rparr>,
          \<lparr>link = ''Mix.Tasks.Foo.html#foo/1'', s_title = Some ''<em>foo</em>/1'',
           description = Some ''Mix.Tasks.Foo'', s_label = None, s_category = Some Child\<rparr>,
          \<lparr>link = ''FooError.html'', s_title = Some ''<em>Foo</em>Error'', description = None,
           s_label = None, s_category = Some Exception\<rparr>,
          \<lparr>link = ''Mix.Tasks.Foo.html'', s_title = Some ''mix <em>foo</em>'', description = None,
           s_label = None, s_category = Some MixTask\<rparr>]
   \<and> (\<exists>ms es ts. findIn compareCodes (modules mixedIndex) ''foo'' = Inr ms
         \<and> findIn compareCodes (exceptions mixedIndex) ''foo'' = Inr es
         \<and> findIn compareCodes (tasks mixedIndex) ''foo'' = Inr ts
         \<and> map s_category (concat (map parseModuleResults
               (addCategory ms Module @ addCategory es Exception @ addCategory ts MixTask)))
             = [Some Module, Some Exception, Some MixTask, Some Child])"
proof -
  let ?out = "[\<lparr>link = ''Foo.html'', s_title = Some ''<em>Foo</em>'', description = None,
           s_label = None, s_category = Some Module\<rparr>,
          \<lparr>link = ''Mix.Tasks.Foo.html#foo/1'', s_title = Some ''<em>foo</em>/1'',
           description = Some ''Mix.Tasks.Foo'', s_label = None, s_category = Some Child\<rparr>,
          \<lparr>link = ''FooError.html'', s_title = Some ''<em>Foo</em>Error'', description = None,
           s_label = None, s_category = Some Exception\<rparr>,
          \<lparr>link = ''Mix.Tasks.Foo.html'', s_title = Some ''mix <em>foo</em>'', description = None,
           s_label = None, s_category = Some MixTask\<rparr>]"
  have ev: "getSuggestions compareCodes mixedIndex ''foo'' = Inr ?out"
    by code_simp
  have ne: "length (trim ''foo'') \<noteq> 0"
    by code_simp
  from global_ranking[of compareCodes mixedIndex "''foo''"] ne obtain ms es ts where
    f: "findIn compareCodes (modules mixedIndex) ''foo'' = Inr ms"
       "findIn compareCodes (exceptions mixedIndex) ''foo'' = Inr es"
       "findIn compareCodes (tasks mixedIndex) ''foo'' = Inr ts"
    by auto
  have "findIn compareCodes (modules mixedIndex) ''foo'' =
          Inr [\<lparr>rid = ''Foo'', rmatch = Some ''<em>Foo</em>'', m_functions = None,
                m_callbacks = None, m_types = None\<rparr>]"
    by code_simp
  with f(1) have ms: "ms = [\<lparr>rid = ''Foo'', rmatch = Some ''<em>Foo</em>'', m_functions = None,
                m_callbacks = None, m_types = None\<rparr>]" by simp
  have "findIn compareCodes (exceptions mixedIndex) ''foo'' =
          Inr [\<lparr>rid = ''FooError'', rmatch = Some ''<em>Foo</em>Error'', m_functions = None,
                m_callbacks = None, m_types = None\<rparr>]"
    by code_simp
  with f(2) have es: "es = [\<lparr>rid = ''FooError'', rmatch = Some ''<em>Foo</em>Error'',
                m_functions = None, m_callbacks = None, m_types = None\<rparr>]" by simp
  have "findIn compareCodes (tasks mixedIndex) ''foo'' =
          Inr [\<lparr>rid = ''Mix.Tasks.Foo'', rmatch = Some ''mix <em>foo</em>'',
                m_functions = Some [\<lparr>cid = ''foo/1'', anchor = Some ''foo/1'', label = None,
                                     cmatch = ''<em>foo</em>/1''\<rparr>],
                m_callbacks = None, m_types = None\<rparr>]"
    by code_simp
  with f(3) have ts: "ts = [\<lparr>rid = ''Mix.Tasks.Foo'', rmatch = Some ''mix <em>foo</em>'',
                m_functions = Some [\<lparr>cid = ''foo/1'', anchor = Some ''foo/1'', label = None,
                                     cmatch = ''<em>foo</em>/1''\<rparr>],
                m_callbacks = None, m_types = None\<rparr>]" by simp
  have order: "map s_category (concat (map parseModuleResults
               (addCategory ms Module @ addCategory es Exception @ addCategory ts MixTask)))
             = [Some Module, Some Exception, Some MixTask, Some Child]"
    unfolding ms es ts by code_simp
  show ?thesis
  proof (intro conjI exI)
    show "getSuggestions compareCodes mixedIndex ''foo'' = Inr ?out" by (rule ev)
    show "findIn compareCodes (modules mixedIndex) ''foo'' = Inr ms" by (rule f(1))
    show "findIn compareCodes (exceptions mixedIndex) ''foo'' = Inr es" by (rule f(2))
    show "findIn compareCodes (tasks mixedIndex) ''foo'' = Inr ts" by (rule f(3))
    show "map s_category (concat (map parseModuleResults
               (addCategory ms Module @ addCategory es Exception @ addCategory ts MixTask)))
             = [Some Module, Some Exception, Some MixTask, Some Child]" by (rule order)
  qed
qed

text \<open>
  C3, the output filter. The claim is that an item that was not highlighted never
  appears in the output. \<^verbatim>\<open>isMatch\<close> compares the match string of an item with its id;
  the match string of an entry that did not match is its title. A task is listed with
  its command as the title and its module as the id: the term \<open>run\<close> does not occur in
  the title \<open>mix docs\<close>, and the task is suggested all the same, unhighlighted, because
  one of its functions matched.
\<close>

theorem task_listed_unhighlighted:
  "str_match ''mix docs'' (RegExp_i (escapeText ''run'')) = None
   \<and> getSuggestions lc taskIndex ''run'' =
     Inr [\<lparr>link = ''Mix.Tasks.Docs.html#run/1'', s_title = Some ''<em>run</em>/1'',
           description = Some ''Mix.Tasks.Docs'', s_label = None, s_category = Some Child\<rparr>,
          \<lparr>link = ''Mix.Tasks.Docs.html'', s_title = Some ''mix docs'', description = None,
           s_label = None, s_category = Some MixTask\<rparr>]"
  by code_simp

text \<open>
  C4, the title of an entry. As claimed, the engine would match the term against the id
  of an entry that has no title. It does not: \<^verbatim>\<open>findIn\<close> reads the title only, and an
  entry without a title whose id is the term itself is not found.
\<close>

theorem title_fallback_counterexample:
  "str_match ''Foo'' (RegExp_i (escapeText ''Foo'')) = Some \<lparr>m0 = ''Foo'', index = 0, input = ''Foo''\<rparr>
   \<and> findIn_element compareCodes (RegExp_i (escapeText ''Foo'')) ''Foo''
        \<lparr>eid = ''Foo'', title = None, nodeGroups = []\<rparr> = Inr None
   \<and> getSuggestions compareCodes
        \<lparr>modules = [\<lparr>eid = ''Foo'', title = None, nodeGroups = []\<rparr>], exceptions = [], tasks = []\<rparr>
        ''Foo'' = Inr []"
  by code_simp

text \<open>
  C4 as amended. For an entry with a title, the term is matched against the title: on a
  match the entry is retained and its match string is the highlighted title; without a
  match the match string of a retained entry is the unmodified title. The id is never
  matched: a retained entry without a title has no match string.
\<close>

theorem title_match:
  "(\<forall>s m. title e = Some s \<and> s \<noteq> [] \<and> str_match s (RegExp_i (escapeText t)) = Some m \<longrightarrow>
      (\<exists>r. findIn_element lc (RegExp_i (escapeText t)) t e = Inr (Some r)
           \<and> rmatch r = Some (highlight m)))
   \<and> (\<forall>s r. title e = Some s \<and> (s = [] \<or> str_match s (RegExp_i (escapeText t)) = None)
        \<and> findIn_element lc (RegExp_i (escapeText t)) t e = Inr (Some r) \<longrightarrow> rmatch r = Some s)
   \<and> (\<forall>r. title e = None \<and> findIn_element lc (RegExp_i (escapeText t)) t e = Inr (Some r)
        \<longrightarrow> rmatch r = None)"
proof (intro conjI allI impI)
  fix s m
  assume a: "title e = Some s \<and> s \<noteq> [] \<and> str_match s (RegExp_i (escapeText t)) = Some m"
  then have tm: "titleMatch t e = Some m" by (simp add: titleMatch_def)
  show "\<exists>r. findIn_element lc (RegExp_i (escapeText t)) t e = Inr (Some r) \<and> rmatch r = Some (highlight m)"
    unfolding findIn_element_closed Let_def
    by (simp add: tm foldl_groupStep_hasMatch foldl_groupStep_match)
next
  fix s r
  assume a: "title e = Some s \<and> (s = [] \<or> str_match s (RegExp_i (escapeText t)) = None)
        \<and> findIn_element lc (RegExp_i (escapeText t)) t e = Inr (Some r)"
  then have tm: "titleMatch t e = None" by (auto simp: titleMatch_def)
  from a have "findIn_element lc (RegExp_i (escapeText t)) t e = Inr (Some r)" by simp
  then show "rmatch r = Some s"
    unfolding findIn_element_closed Let_def
    using a by (auto simp: tm foldl_groupStep_match split: if_splits)
next
  fix r
  assume a: "title e = None \<and> findIn_element lc (RegExp_i (escapeText t)) t e = Inr (Some r)"
  then have tm: "titleMatch t e = None" by (auto simp: titleMatch_def)
  from a have "findIn_element lc (RegExp_i (escapeText t)) t e = Inr (Some r)" by simp
  then show "rmatch r = None"
    unfolding findIn_element_closed Let_def
    using a by (auto simp: tm foldl_groupStep_match split: if_splits)
qed

theorem title_match_witness:
  "(\<exists>r. findIn_element compareCodes (RegExp_i (escapeText ''foo'')) ''foo''
          \<lparr>eid = ''Foo'', title = Some ''Foo'', nodeGroups = []\<rparr> = Inr (Some r)
        \<and> rmatch r = Some ''<em>Foo</em>'')
   \<and> (\<exists>r. findIn_element compareCodes (RegExp_i (escapeText ''run'')) ''run''
          \<lparr>eid = ''Mix.Tasks.Docs'', title = Some ''mix docs'',
           nodeGroups = [(''functions'', [\<lparr>cid = ''run/1'', anchor = Some ''run/1'', label = None\<rparr>])]\<rparr>
          = Inr (Some r)
        \<and> rmatch r = Some ''mix docs'')
   \<and> (\<exists>r. findIn_element compareCodes (RegExp_i (escapeText ''bar'')) ''bar''
          \<lparr>eid = ''Foo'', title = None,
           nodeGroups = [(''functions'', [\<lparr>cid = ''bar'', anchor = None, label = None\<rparr>])]\<rparr>
          = Inr (Some r)
        \<and> rmatch r = None)"
proof (intro conjI)
  let ?e1 = "\<lparr>eid = ''Foo'', title = Some ''Foo'', nodeGroups = []\<rparr>"
  have m: "str_match ''Foo'' (RegExp_i (escapeText ''foo''))
             = Some \<lparr>m0 = ''Foo'', index = 0, input = ''Foo''\<rparr>"
    by code_simp
  have h: "highlight \<lparr>m0 = ''Foo'', index = 0, input = ''Foo''\<rparr> = ''<em>Foo</em>''"
    by code_simp
  from title_match[of ?e1 "''foo''" compareCodes] m
  have "\<exists>r. findIn_element compareCodes (RegExp_i (escapeText ''foo'')) ''foo'' ?e1 = Inr (Some r)
          \<and> rmatch r = Some (highlight \<lparr>m0 = ''Foo'', index = 0, input = ''Foo''\<rparr>)"
    by simp
  then show "\<exists>r. findIn_element compareCodes (RegExp_i (escapeText ''foo'')) ''foo'' ?e1 = Inr (Some r)
          \<and> rmatch r = Some ''<em>Foo</em>''"
    by (simp only: h)
next
  let ?e2 = "\<lparr>eid = ''Mix.Tasks.Docs'', title = Some ''mix docs'',
           nodeGroups = [(''functions'', [\<lparr>cid = ''run/1'', anchor = Some ''run/1'', label = None\<rparr>])]\<rparr>"
  let ?r2 = "\<lparr>rid = ''Mix.Tasks.Docs'', rmatch = Some ''mix docs'',
             m_functions = Some [\<lparr>cid = ''run/1'', anchor = Some ''run/1'', label = None,
                                  cmatch = ''<em>run</em>/1''\<rparr>],
             m_callbacks = None, m_types = None\<rparr>"
  have n: "str_match ''mix docs'' (RegExp_i (escapeText ''run'')) = None"
    by code_simp
  have ev: "findIn_element compareCodes (RegExp_i (escapeText ''run'')) ''run'' ?e2 = Inr (Some ?r2)"
    by code_simp
  from title_match[of ?e2 "''run''" compareCodes] n ev
  have "rmatch ?r2 = Some ''mix docs''"
    by (simp del: MatchResult.simps)
  with ev show "\<exists>r. findIn_element compareCodes (RegExp_i (escapeText ''run'')) ''run'' ?e2 = Inr (Some r)
          \<and> rmatch r = Some ''mix docs''"
    by blast
next
  let ?e3 = "\<lparr>eid = ''Foo'', title = None,
           nodeGroups = [(''functions'', [\<lparr>cid = ''bar'', anchor = None, label = None\<rparr>])]\<rparr>"
  let ?r3 = "\<lparr>rid = ''Foo'', rmatch = None,
             m_functions = Some [\<lparr>cid = ''bar'', anchor = None, label = None,
                                  cmatch = ''<em>bar</em>''\<rparr>],
             m_callbacks = None, m_types = None\<rparr>"
  have ev: "findIn_element compareCodes (RegExp_i (escapeText ''bar'')) ''bar'' ?e3 = Inr (Some ?r3)"
    by code_simp
  from title_match[of ?e3 "''bar''" compareCodes] ev
  have "rmatch ?r3 = None"
    by (simp del: MatchResult.simps)
  with ev show "\<exists>r. findIn_element compareCodes (RegExp_i (escapeText ''bar'')) ''bar'' ?e3 = Inr (Some r)
          \<and> rmatch r = None"
    by blast
qed

text \<open>
  C5, the matcher. A string matches the matcher of a term exactly when it has a
  substring that is the term up to the case of the letters; terms that differ in case
  only give the same suggestions, as \<open>Foo\<close> and \<open>foo\<close> do for an entry titled
  \<open>FooBar\<close>; and the dot of the term \<open>a.b\<close> matches a dot only, not the \<open>x\<close> of
  \<open>axb\<close>.
\<close>

theorem matcher_semantics:
  "((\<exists>m. str_match s (RegExp_i (escapeText t)) = Some m)
      \<longleftrightarrow> (\<exists>u v w. s = u @ v @ w \<and> map canonicalize v = map canonicalize t))
   \<and> (map canonicalize t = map canonicalize t'
        \<longrightarrow> getSuggestions lc nodes t = getSuggestions lc nodes t')
   \<and> getSuggestions lc
        \<lparr>modules = [\<lparr>eid = ''FooBar'', title = Some ''FooBar'', nodeGroups = []\<rparr>],
         exceptions = [], tasks = []\<rparr> ''Foo''
      = Inr [\<lparr>link = ''FooBar.html'', s_title = Some ''<em>Foo</em>Bar'', description = None,
              s_label = None, s_category = Some Module\<rparr>]
   \<and> getSuggestions lc
        \<lparr>modules = [\<lparr>eid = ''FooBar'', title = Some ''FooBar'', nodeGroups = []\<rparr>],
         exceptions = [], tasks = []\<rparr> ''foo''
      = Inr [\<lparr>link = ''FooBar.html'', s_title = Some ''<em>Foo</em>Bar'', description = None,
              s_label = None, s_category = Some Module\<rparr>]
   \<and> str_match ''axb'' (RegExp_i (escapeText ''a.b'')) = None
   \<and> getSuggestions lc
        \<lparr>modules = [\<lparr>eid = ''axb'', title = Some ''axb'', nodeGroups = []\<rparr>],
         exceptions = [], tasks = []\<rparr> ''a.b'' = Inr []"
proof (intro conjI impI)
  show "(\<exists>m. str_match s (RegExp_i (escapeText t)) = Some m)
      \<longleftrightarrow> (\<exists>u v w. s = u @ v @ w \<and> map canonicalize v = map canonicalize t)"
    using searchI_substring[of t s] str_match_None[of s t] by auto
  show "getSuggestions lc nodes t = getSuggestions lc nodes t'"
    if "map canonicalize t = map canonicalize t'"
    using that by (rule getSuggestions_canon)
qed code_simp+

theorem matcher_semantics_witness:
  "getSuggestions compareCodes fooIndex ''FOO.bar'' = getSuggestions compareCodes fooIndex ''foo.BAR''"
proof -
  have "map canonicalize ''FOO.bar'' = map canonicalize ''foo.BAR''"
    by code_simp
  with matcher_semantics[of _ "''FOO.bar''" "''foo.BAR''" compareCodes fooIndex]
  show ?thesis by blast
qed

text \<open>
  C6, the result cap. For every index and every term, \<^verbatim>\<open>getSuggestions\<close> returns, and
  returns at most 5 suggestions: none for a term that is empty once trimmed, otherwise
  the first 5 of the sorted suggestions.
\<close>

theorem result_cap:
  "\<exists>out. getSuggestions lc nodes t = Inr out \<and> length out \<le> 5 \<and>
     (if length (trim t) = 0 then out = []
      else \<exists>flat. flatResults lc nodes t = Inr flat \<and> out = take 5 (array_sort compareItems flat))"
proof -
  obtain flat where "flatResults lc nodes t = Inr flat" using flatResults_total by blast
  then show ?thesis by (simp add: getSuggestions_def resultsCount_def)
qed

text \<open>
  C7, the empty term. For every index, \<^verbatim>\<open>getSuggestions\<close> of a term made of white
  space only (the empty term included) returns the empty sequence, and no error.
\<close>

theorem empty_term:
  assumes "\<forall>c\<in>set t. isWhiteSpace c"
  shows "getSuggestions lc nodes t = Inr []"
  using trim_white[OF assms] by (simp add: getSuggestions_def)

theorem empty_term_witness:
  "getSuggestions compareCodes fooIndex ''   '' = Inr []
   \<and> getSuggestions compareCodes fooIndex [] = Inr []"
  by (intro conjI; rule empty_term) (simp_all add: isWhiteSpace_def)

text \<open>
  C8, idempotence and the index left as it was. Take a store in which every child the
  index names is an object. A call of \<^verbatim>\<open>getSuggestions\<close> returns, and leaves every
  object that existed before the call as it was: the copies of \<^verbatim>\<open>findNested\<close> are new
  objects, and \<^verbatim>\<open>findNested\<close> and \<^verbatim>\<open>addLabel\<close> assign to those copies only. So the
  index read from the store after the call is the index read before it, a second call on
  the store the first one left returns the same suggestions, and these are the
  suggestions of the definitions on values.
\<close>

theorem idempotent_index_unchanged:
  assumes "wfIndex h nodes"
  shows "\<exists>out h' h''.
           getSuggestionsS lc nodes t h = Inr (out, h')
           \<and> take (length h) h' = h
           \<and> indexOf_store h' nodes = indexOf_store h nodes
           \<and> getSuggestionsS lc nodes t h' = Inr (out, h'')
           \<and> take (length h) h'' = h
           \<and> indexOf_store h'' nodes = indexOf_store h nodes
           \<and> getSuggestions lc (indexOf_store h nodes) t = Inr out"
proof -
  from getSuggestionsS_refines[OF assms, of lc t] obtain out h' where
    1: "getSuggestionsS lc nodes t h = Inr (out, h')"
    and p: "getSuggestions lc (indexOf_store h nodes) t = Inr out"
    and f1: "take (length h) h' = h"
    by blast
  from index_unchanged[OF assms f1] have wf': "wfIndex h' nodes"
    and i1: "indexOf_store h' nodes = indexOf_store h nodes" by simp_all
  from getSuggestionsS_refines[OF wf', of lc t] obtain out' h'' where
    2: "getSuggestionsS lc nodes t h' = Inr (out', h'')"
    and p': "getSuggestions lc (indexOf_store h' nodes) t = Inr out'"
    and f2: "take (length h') h'' = h'"
    by blast
  from p p' i1 have same: "out' = out" by simp
  have "length h \<le> length h'" using f1 by (metis length_take min.cobounded2 min_def nat_le_linear)
  then have "take (length h) h'' = take (length h) (take (length h') h'')"
    by (simp add: min_def)
  then have f3: "take (length h) h'' = h" using f2 f1 by simp
  from index_unchanged[OF assms f3] have i2: "indexOf_store h'' nodes = indexOf_store h nodes"
    by simp
  from 1 f1 i1 2 same f3 i2 p show ?thesis by blast
qed

theorem idempotent_index_unchanged_witness:
  "(\<exists>out h' h''.
      getSuggestionsS compareCodes fooIndexS ''t'' fooStore = Inr (out, h')
      \<and> take (length fooStore) h' = fooStore
      \<and> indexOf_store h' fooIndexS = indexOf_store fooStore fooIndexS
      \<and> getSuggestionsS compareCodes fooIndexS ''t'' h' = Inr (out, h'')
      \<and> take (length fooStore) h'' = fooStore
      \<and> indexOf_store h'' fooIndexS = indexOf_store fooStore fooIndexS
      \<and> getSuggestions compareCodes (indexOf_store fooStore fooIndexS) ''t'' = Inr out)
   \<and> getSuggestionsS compareCodes fooIndexS ''t'' fooStore =
       Inr ([\<lparr>link = ''Foo.html#t:t/0'', s_title = Some ''<em>t</em>'', description = Some ''Foo'',
              s_label = Some ''type'', s_category = Some Child\<rparr>],
            fooStore @
            [\<lparr>o_id = ''bar'', o_anchor = Some ''bar/0'', o_label = None, o_match = Some ''bar''\<rparr>,
             \<lparr>o_id = ''t'', o_anchor = Some ''t:t/0'', o_label = Some ''type'',
              o_match = Some ''<em>t</em>''\<rparr>])"
proof
  have "wfIndex fooStore fooIndexS"
    by code_simp
  then show "\<exists>out h' h''.
      getSuggestionsS compareCodes fooIndexS ''t'' fooStore = Inr (out, h')
      \<and> take (length fooStore) h' = fooStore
      \<and> indexOf_store h' fooIndexS = indexOf_store fooStore fooIndexS
      \<and> getSuggestionsS compareCodes fooIndexS ''t'' h' = Inr (out, h'')
      \<and> take (length fooStore) h'' = fooStore
      \<and> indexOf_store h'' fooIndexS = indexOf_store fooStore fooIndexS
      \<and> getSuggestions compareCodes (indexOf_store fooStore fooIndexS) ''t'' = Inr out"
    by (rule idempotent_index_unchanged)
  show "getSuggestionsS compareCodes fooIndexS ''t'' fooStore =
       Inr ([\<lparr>link = ''Foo.html#t:t/0'', s_title = Some ''<em>t</em>'', description = Some ''Foo'',
              s_label = Some ''type'', s_category = Some Child\<rparr>],
            fooStore @
            [\<lparr>o_id = ''bar'', o_anchor = Some ''bar/0'', o_label = None, o_match = Some ''bar''\<rparr>,
             \<lparr>o_id = ''t'', o_anchor = Some ''t:t/0'', o_label = Some ''type'',
              o_match = Some ''<em>t</em>''\<rparr>])"
    by code_simp
qed

text \<open>
  C9, the safety of the qualified-name branch. When a child id \<open>c\<close> is not empty and
  does not match the term, the parent prefix \<open>p.\<close> does not match it and the composite
  \<open>p.c\<close> does, the match of \<open>c\<close> against the last dot-separated segment of the term is
  not null. So \<^verbatim>\<open>highlight\<close> is never given a null match: \<^verbatim>\<open>findNested\<close> returns
  without error for every list of children, parent, term and accumulator, and so does
  \<^verbatim>\<open>getSuggestions\<close> for every index and term.
\<close>

theorem qualified_branch_safe:
  assumes "c \<noteq> []"
    and "str_match c (RegExp_i (escapeText t)) = None"
    and "str_match (p @ ''.'') (RegExp_i (escapeText t)) = None"
    and "str_match (p @ ''.'' @ c) (RegExp_i (escapeText t)) \<noteq> None"
  shows "(\<exists>m. str_match c (RegExp_i (escapeText (last (split (CHR ''.'') t)))) = Some m)
         \<and> (\<exists>acc'. findNested elements p (RegExp_i (escapeText t)) t acc = Inr acc')
         \<and> (\<exists>out. getSuggestions lc nodes t = Inr out)"
proof -
  have "(if c = [] then None else str_match c (RegExp_i (escapeText t))) = None"
    using assms(1,2) by simp
  from qualified_reduced_match[OF this assms(3,4) refl]
  show ?thesis by (simp add: findNested_collect getSuggestions_total)
qed

theorem qualified_branch_safe_witness:
  "(\<exists>m. str_match ''bar'' (RegExp_i (escapeText (last (split (CHR ''.'') ''o.b'')))) = Some m)
   \<and> (\<exists>acc'. findNested [\<lparr>cid = ''bar'', anchor = None, label = None\<rparr>] ''Foo''
                 (RegExp_i (escapeText ''o.b'')) ''o.b'' None = Inr acc')
   \<and> (\<exists>out. getSuggestions compareCodes fooIndex ''o.b'' = Inr out)"
proof (rule qualified_branch_safe)
  show "''bar'' \<noteq> []" by simp
  show "str_match ''bar'' (RegExp_i (escapeText ''o.b'')) = None" by code_simp
  show "str_match (''Foo'' @ ''.'') (RegExp_i (escapeText ''o.b'')) = None" by code_simp
  show "str_match (''Foo'' @ ''.'' @ ''bar'') (RegExp_i (escapeText ''o.b'')) \<noteq> None" by code_simp
qed

text \<open>
  C10, the scope of the highlight. The claim is that \<^verbatim>\<open>highlight\<close> wraps the leftmost
  occurrence of the matched text, and only it, in \<open><em>\<close> and \<open></em>\<close>. The file
  writes the matched text into the replacement text of \<open>replace\<close>, where a dollar sign
  is read as a pattern: for the title \<open>a$$b\<close> and the term \<open>$$\<close> the matched text is
  \<open>$$\<close>, and what is wrapped is a single dollar sign.
\<close>

theorem highlight_dollar:
  "str_match ''a$$b'' (RegExp_i (escapeText ''$$'')) = Some \<lparr>m0 = ''$$'', index = 1, input = ''a$$b''\<rparr>
   \<and> highlight \<lparr>m0 = ''$$'', index = 1, input = ''a$$b''\<rparr> = ''a<em>$</em>b''
   \<and> getSuggestions lc
        \<lparr>modules = [\<lparr>eid = ''a$$b'', title = Some ''a$$b'', nodeGroups = []\<rparr>],
         exceptions = [], tasks = []\<rparr> ''$$''
       = Inr [\<lparr>link = ''a$$b.html'', s_title = Some ''a<em>$</em>b'', description = None,
               s_label = None, s_category = Some Module\<rparr>]"
  by code_simp

end
